theory Spec2Isabelle
  imports Main
begin

section \<open>Python built-ins used by rpn2tex\<close>

text \<open>
  Source text is modelled as a list of 8-bit characters, read as the code points below
  256 (Latin-1). On these, Python's \<^verbatim>\<open>str.isdigit\<close> holds for the ten decimal
  digits 0 to 9 and for the three superscript digits U+00B2, U+00B3 and U+00B9, which
  are digits but not decimal digits. The empty string is not a digit string.
\<close>

definition isdigit :: "string \<Rightarrow> bool" where
  "isdigit s =
     (s \<noteq> [] \<and> list_all (\<lambda>c. c \<in> set (''0123456789'' @ [CHR 0xB2, CHR 0xB3, CHR 0xB9])) s)"

text \<open>Python's \<^verbatim>\<open>s in t\<close> on strings: \<open>s\<close> occurs in \<open>t\<close> as a contiguous slice.\<close>

definition str_in :: "string \<Rightarrow> string \<Rightarrow> bool" where
  "str_in s t = list_ex (\<lambda>i. take (length s) (drop i t) = s) [0..<Suc (length t)]"

text \<open>Python's \<^verbatim>\<open>str(n)\<close> on integers: decimal digits, a minus sign when negative.\<close>

function str_nat :: "nat \<Rightarrow> string" where
  "str_nat n =
     (if n < 10 then [''0123456789'' ! n]
      else str_nat (n div 10) @ [''0123456789'' ! (n mod 10)])"
  by pat_completeness auto
termination
  by (relation "measure (\<lambda>n. n)") auto

definition str_int :: "int \<Rightarrow> string" where
  "str_int i = (if i < 0 then ''-'' @ str_nat (nat (- i)) else str_nat (nat i))"

text \<open>Python's \<^verbatim>\<open>sep.join(parts)\<close>.\<close>

fun join :: "string \<Rightarrow> string list \<Rightarrow> string" where
  "join sep [] = []"
| "join sep [x] = x"
| "join sep (x # y # ys) = x @ sep @ join sep (y # ys)"

text \<open>
  Python's \<^verbatim>\<open>str.splitlines()\<close> on such text: a line ends at LF, CR, CR LF, VT, FF,
  FS, GS, RS or NEL (U+0085); the terminators are dropped and no empty last line is
  produced.
\<close>

definition line_boundary :: "char \<Rightarrow> bool" where
  "line_boundary c =
     (c \<in> set [CHR 0x0A, CHR 0x0D, CHR 0x0B, CHR 0x0C, CHR 0x1C, CHR 0x1D, CHR 0x1E,
                 CHR 0x85])"

fun splitlines_from :: "string \<Rightarrow> string \<Rightarrow> string list" where
  "splitlines_from cur [] = (if cur = [] then [] else [cur])"
| "splitlines_from cur (c # cs) =
     (if c = CHR 0x0D then
        (case cs of
           [] \<Rightarrow> cur # splitlines_from [] cs
         | d # ds \<Rightarrow>
             if d = CHR 0x0A then cur # splitlines_from [] ds
             else cur # splitlines_from [] cs)
      else if line_boundary c then cur # splitlines_from [] cs
      else splitlines_from (cur @ [c]) cs)"

definition splitlines :: "string \<Rightarrow> string list" where
  "splitlines s = splitlines_from [] s"


section \<open>Tokens (tokens.py)\<close>

datatype TokenType = NUMBER | PLUS | MINUS | MULT | DIV | EOF

datatype Token =
  Token (tok_type: TokenType) (tok_value: string) (tok_line: int) (tok_column: int)


section \<open>AST nodes (ast\_nodes.py)\<close>

text \<open>
  \<open>Number line column value\<close> and \<open>BinaryOp line column operator left right\<close>; the
  operator is a string, as in the source.
\<close>

datatype Expr =
  Number int int string
| BinaryOp int int string Expr Expr


section \<open>Errors\<close>

text \<open>
  \<open>LexerError message line column\<close> and \<open>ParserError message token\<close> are the two
  exception classes of the package; \<open>IndexError\<close> and \<open>KeyError\<close> are the Python
  run-time errors of an out-of-range index and of a missing dictionary key.
\<close>

datatype error =
  LexerError string int int
| ParserError string Token
| IndexError
| KeyError


section \<open>Lexer (lexer.py)\<close>

record Lexer =
  lx_text :: string
  lx_pos :: nat
  lx_line :: int
  lx_column :: int

definition Lexer_init :: "string \<Rightarrow> Lexer" where
  "Lexer_init s = \<lparr>lx_text = s, lx_pos = 0, lx_line = 1, lx_column = 1\<rparr>"

definition at_end :: "Lexer \<Rightarrow> bool" where
  "at_end lx = (lx_pos lx \<ge> length (lx_text lx))"

definition peek :: "Lexer \<Rightarrow> string" where
  "peek lx = (if at_end lx then [] else [lx_text lx ! lx_pos lx])"

text \<open>\<open>advance\<close> reads \<open>text[pos]\<close>, which raises IndexError at the end of the text.\<close>

definition advance :: "Lexer \<Rightarrow> error + (string \<times> Lexer)" where
  "advance lx =
     (if lx_pos lx < length (lx_text lx) then
        (let char = lx_text lx ! lx_pos lx;
             lx1 = lx\<lparr>lx_pos := lx_pos lx + 1\<rparr>
         in if char = CHR 0x0A
            then Inr ([char], lx1\<lparr>lx_line := lx_line lx1 + 1, lx_column := 1\<rparr>)
            else Inr ([char], lx1\<lparr>lx_column := lx_column lx1 + 1\<rparr>))
      else Inl IndexError)"

lemma advance_progress:
  "advance lx = Inr (c, lx1) \<Longrightarrow>
     lx_text lx1 = lx_text lx \<and> lx_pos lx1 = Suc (lx_pos lx) \<and> lx_pos lx < length (lx_text lx)"
  by (auto simp: advance_def Let_def split: if_splits)

function skip_whitespace :: "Lexer \<Rightarrow> error + Lexer" where
  "skip_whitespace lx =
     (if \<not> at_end lx \<and> str_in (peek lx) [CHR '' '', CHR 0x09, CHR 0x0A, CHR 0x0D] then
        (case advance lx of
           Inl e \<Rightarrow> Inl e
         | Inr (c, lx1) \<Rightarrow> skip_whitespace lx1)
      else Inr lx)"
  by pat_completeness auto
termination
proof (relation "measure (\<lambda>lx. length (lx_text lx) - lx_pos lx)")
  show "wf (measure (\<lambda>lx. length (lx_text lx) - lx_pos lx))" by simp
next
  fix lx :: Lexer and r c lx1
  assume "advance lx = Inr r" and "(c, lx1) = r"
  then have "advance lx = Inr (c, lx1)" by simp
  from advance_progress [OF this]
  show "(lx1, lx) \<in> measure (\<lambda>lx. length (lx_text lx) - lx_pos lx)" by auto
qed

text \<open>
  The loop \<^verbatim>\<open>while not self._at_end() and self._peek().isdigit(): value += self._advance()\<close>,
  which \<^verbatim>\<open>_scan_number\<close> runs once for the integer part and once after the dot.
\<close>

function scan_digits :: "Lexer \<Rightarrow> string \<Rightarrow> error + (string \<times> Lexer)" where
  "scan_digits lx val =
     (if \<not> at_end lx \<and> isdigit (peek lx) then
        (case advance lx of
           Inl e \<Rightarrow> Inl e
         | Inr (c, lx1) \<Rightarrow> scan_digits lx1 (val @ c))
      else Inr (val, lx))"
  by pat_completeness auto
termination
proof (relation "measure (\<lambda>(lx, val). length (lx_text lx) - lx_pos lx)")
  show "wf (measure (\<lambda>(lx, val). length (lx_text lx) - lx_pos lx))" by simp
next
  fix lx :: Lexer and val :: string and r c lx1
  assume "advance lx = Inr r" and "(c, lx1) = r"
  then have "advance lx = Inr (c, lx1)" by simp
  from advance_progress [OF this]
  show "((lx1, val @ c), (lx, val)) \<in> measure (\<lambda>(lx, val). length (lx_text lx) - lx_pos lx)"
    by auto
qed

definition scan_number :: "string \<Rightarrow> int \<Rightarrow> int \<Rightarrow> Lexer \<Rightarrow> error + (Token \<times> Lexer)" where
  "scan_number prefix start_line start_column lx =
     (case scan_digits lx prefix of
        Inl e \<Rightarrow> Inl e
      | Inr (val, lx1) \<Rightarrow>
          if \<not> at_end lx1 \<and> peek lx1 = ''.'' then
            (case advance lx1 of
               Inl e \<Rightarrow> Inl e
             | Inr (c, lx2) \<Rightarrow>
                 (case scan_digits lx2 (val @ c) of
                    Inl e \<Rightarrow> Inl e
                  | Inr (val2, lx3) \<Rightarrow> Inr (Token NUMBER val2 start_line start_column, lx3)))
          else Inr (Token NUMBER val start_line start_column, lx1))"

definition scan_token :: "Lexer \<Rightarrow> error + (Token \<times> Lexer)" where
  "scan_token lx =
     (let start_line = lx_line lx;
          start_column = lx_column lx;
          char = peek lx
      in if char = ''+'' then
           (case advance lx of
              Inl e \<Rightarrow> Inl e
            | Inr (c, lx1) \<Rightarrow> Inr (Token PLUS ''+'' start_line start_column, lx1))
         else if char = ''-'' then
           (case advance lx of
              Inl e \<Rightarrow> Inl e
            | Inr (c, lx1) \<Rightarrow>
                if \<not> at_end lx1 \<and> isdigit (peek lx1)
                then scan_number ''-'' start_line start_column lx1
                else Inr (Token MINUS ''-'' start_line start_column, lx1))
         else if char = ''*'' then
           (case advance lx of
              Inl e \<Rightarrow> Inl e
            | Inr (c, lx1) \<Rightarrow> Inr (Token MULT ''*'' start_line start_column, lx1))
         else if char = ''/'' then
           (case advance lx of
              Inl e \<Rightarrow> Inl e
            | Inr (c, lx1) \<Rightarrow> Inr (Token DIV ''/'' start_line start_column, lx1))
         else if isdigit char then scan_number [] start_line start_column lx
         else Inl (LexerError (''Unexpected character '' @ [CHR 0x27] @ char @ [CHR 0x27])
                     start_line start_column))"


declare skip_whitespace.simps [simp del]
declare scan_digits.simps [simp del]

lemma skip_whitespace_progress:
  "skip_whitespace lx = Inr lx1 \<Longrightarrow> lx_text lx1 = lx_text lx \<and> lx_pos lx \<le> lx_pos lx1"
proof (induction lx rule: skip_whitespace.induct)
  case (1 lx)
  show ?case
  proof (cases "\<not> at_end lx \<and> str_in (peek lx) [CHR '' '', CHR 0x09, CHR 0x0A, CHR 0x0D]")
    case True
    with "1.prems" obtain c lx2 where adv: "advance lx = Inr (c, lx2)"
      and rest: "skip_whitespace lx2 = Inr lx1"
      by (auto simp: skip_whitespace.simps [of lx] split: sum.splits)
    from "1.IH" [OF True adv refl rest] advance_progress [OF adv]
    show ?thesis by simp
  next
    case False
    with "1.prems" show ?thesis by (simp add: skip_whitespace.simps [of lx])
  qed
qed

lemma scan_digits_progress:
  "scan_digits lx val = Inr (val1, lx1) \<Longrightarrow>
     lx_text lx1 = lx_text lx \<and> lx_pos lx \<le> lx_pos lx1"
proof (induction lx val rule: scan_digits.induct)
  case (1 lx val)
  show ?case
  proof (cases "\<not> at_end lx \<and> isdigit (peek lx)")
    case True
    with "1.prems" obtain c lx2 where adv: "advance lx = Inr (c, lx2)"
      and rest: "scan_digits lx2 (val @ c) = Inr (val1, lx1)"
      by (auto simp: scan_digits.simps [of lx] split: sum.splits)
    from "1.IH" [OF True adv refl rest] advance_progress [OF adv]
    show ?thesis by simp
  next
    case False
    with "1.prems" show ?thesis by (simp add: scan_digits.simps [of lx])
  qed
qed

lemma scan_digits_first:
  assumes "\<not> at_end lx" and "isdigit (peek lx)" and "scan_digits lx val = Inr (val1, lx1)"
  shows "lx_text lx1 = lx_text lx \<and> lx_pos lx < lx_pos lx1"
proof -
  from assms obtain c lx2 where adv: "advance lx = Inr (c, lx2)"
    and rest: "scan_digits lx2 (val @ c) = Inr (val1, lx1)"
    by (auto simp: scan_digits.simps [of lx] split: sum.splits)
  from scan_digits_progress [OF rest] advance_progress [OF adv]
  show ?thesis by simp
qed

lemma scan_number_progress:
  assumes "scan_number prefix sl sc lx = Inr (tok, lx1)"
  shows "lx_text lx1 = lx_text lx \<and> lx_pos lx \<le> lx_pos lx1"
proof -
  from assms obtain val la where d1: "scan_digits lx prefix = Inr (val, la)"
    by (auto simp: scan_number_def split: sum.splits)
  note p1 = scan_digits_progress [OF d1]
  show ?thesis
  proof (cases "\<not> at_end la \<and> peek la = ''.''")
    case True
    with assms d1 obtain c lb val2 where adv: "advance la = Inr (c, lb)"
      and d2: "scan_digits lb (val @ c) = Inr (val2, lx1)"
      by (auto simp: scan_number_def split: sum.splits)
    from p1 advance_progress [OF adv] scan_digits_progress [OF d2]
    show ?thesis by simp
  next
    case False
    with assms d1 have "lx1 = la" by (auto simp: scan_number_def)
    with p1 show ?thesis by simp
  qed
qed

lemma scan_number_first:
  assumes "\<not> at_end lx" and "isdigit (peek lx)"
    and "scan_number prefix sl sc lx = Inr (tok, lx1)"
  shows "lx_text lx1 = lx_text lx \<and> lx_pos lx < lx_pos lx1"
proof -
  from assms obtain val la where d1: "scan_digits lx prefix = Inr (val, la)"
    by (auto simp: scan_number_def split: sum.splits)
  note p1 = scan_digits_first [OF assms(1,2) d1]
  show ?thesis
  proof (cases "\<not> at_end la \<and> peek la = ''.''")
    case True
    with assms d1 obtain c lb val2 where adv: "advance la = Inr (c, lb)"
      and d2: "scan_digits lb (val @ c) = Inr (val2, lx1)"
      by (auto simp: scan_number_def split: sum.splits)
    from p1 advance_progress [OF adv] scan_digits_progress [OF d2]
    show ?thesis by simp
  next
    case False
    with assms d1 have "lx1 = la" by (auto simp: scan_number_def)
    with p1 show ?thesis by simp
  qed
qed

lemma scan_token_progress:
  assumes "scan_token lx = Inr (tok, lx1)"
  shows "lx_text lx1 = lx_text lx \<and> lx_pos lx < lx_pos lx1"
proof -
  consider (plus) "peek lx = ''+''" | (minus) "peek lx = ''-''" | (mult) "peek lx = ''*''"
    | (div) "peek lx = ''/''"
    | (other) "peek lx \<noteq> ''+''" "peek lx \<noteq> ''-''" "peek lx \<noteq> ''*''" "peek lx \<noteq> ''/''"
    by blast
  then show ?thesis
  proof cases
    case plus
    with assms obtain c where "advance lx = Inr (c, lx1)"
      by (auto simp: scan_token_def Let_def split: sum.splits)
    from advance_progress [OF this] show ?thesis by simp
  next
    case minus
    with assms obtain c la where adv: "advance lx = Inr (c, la)"
      and rest: "(if \<not> at_end la \<and> isdigit (peek la)
                  then scan_number ''-'' (lx_line lx) (lx_column lx) la
                  else Inr (Token MINUS ''-'' (lx_line lx) (lx_column lx), la)) = Inr (tok, lx1)"
      by (auto simp: scan_token_def Let_def split: sum.splits)
    note pa = advance_progress [OF adv]
    show ?thesis
    proof (cases "\<not> at_end la \<and> isdigit (peek la)")
      case True
      with rest have "scan_number ''-'' (lx_line lx) (lx_column lx) la = Inr (tok, lx1)" by simp
      from scan_number_progress [OF this] pa show ?thesis by simp
    next
      case False
      with rest have "lx1 = la" by auto
      with pa show ?thesis by simp
    qed
  next
    case mult
    with assms obtain c where "advance lx = Inr (c, lx1)"
      by (auto simp: scan_token_def Let_def split: sum.splits)
    from advance_progress [OF this] show ?thesis by simp
  next
    case div
    with assms obtain c where "advance lx = Inr (c, lx1)"
      by (auto simp: scan_token_def Let_def split: sum.splits)
    from advance_progress [OF this] show ?thesis by simp
  next
    case other
    with assms have dig: "isdigit (peek lx)"
      and num: "scan_number [] (lx_line lx) (lx_column lx) lx = Inr (tok, lx1)"
      by (auto simp: scan_token_def Let_def split: if_splits)
    from dig have "\<not> at_end lx" by (auto simp: peek_def isdigit_def)
    from scan_number_first [OF this dig num] show ?thesis .
  qed
qed

text \<open>
  The loop of \<^verbatim>\<open>tokenize\<close>; it returns the tokens scanned and the lexer's final state.
\<close>

function tokenize_loop :: "Lexer \<Rightarrow> Token list \<Rightarrow> error + (Token list \<times> Lexer)" where
  "tokenize_loop lx tokens =
     (if \<not> at_end lx then
        (case skip_whitespace lx of
           Inl e \<Rightarrow> Inl e
         | Inr lx1 \<Rightarrow>
             if at_end lx1 then Inr (tokens, lx1)
             else (case scan_token lx1 of
                     Inl e \<Rightarrow> Inl e
                   | Inr (tok, lx2) \<Rightarrow> tokenize_loop lx2 (tokens @ [tok])))
      else Inr (tokens, lx))"
  by pat_completeness auto
termination
proof (relation "measure (\<lambda>(lx, tokens). length (lx_text lx) - lx_pos lx)")
  show "wf (measure (\<lambda>(lx, tokens). length (lx_text lx) - lx_pos lx))" by simp
next
  fix lx :: Lexer and tokens :: "Token list" and lx1 r tok lx2
  assume "\<not> at_end lx" and sk: "skip_whitespace lx = Inr lx1" and "\<not> at_end lx1"
    and "scan_token lx1 = Inr r" and "(tok, lx2) = r"
  then have st: "scan_token lx1 = Inr (tok, lx2)" by simp
  from skip_whitespace_progress [OF sk] scan_token_progress [OF st] \<open>\<not> at_end lx1\<close>
  show "((lx2, tokens @ [tok]), (lx, tokens))
          \<in> measure (\<lambda>(lx, tokens). length (lx_text lx) - lx_pos lx)"
    by (auto simp: at_end_def)
qed

declare tokenize_loop.simps [simp del]

definition tokenize :: "string \<Rightarrow> error + Token list" where
  "tokenize txt =
     (case tokenize_loop (Lexer_init txt) [] of
        Inl e \<Rightarrow> Inl e
      | Inr (tokens, lx) \<Rightarrow> Inr (tokens @ [Token EOF [] (lx_line lx) (lx_column lx)]))"



section \<open>Parser (parser.py)\<close>

text \<open>
  The parser reads \<open>tokens[pos]\<close> in \<^verbatim>\<open>_current\<close>, \<^verbatim>\<open>_at_end\<close> and \<^verbatim>\<open>_advance\<close>;
  \<open>pos\<close> is never negative, so the read raises IndexError exactly when \<open>pos\<close> is
  not below the length of the list.
\<close>

definition parser_current :: "Token list \<Rightarrow> nat \<Rightarrow> error + Token" where
  "parser_current tokens pos =
     (if pos < length tokens then Inr (tokens ! pos) else Inl IndexError)"

definition parser_at_end :: "Token list \<Rightarrow> nat \<Rightarrow> error + bool" where
  "parser_at_end tokens pos =
     (if pos < length tokens then Inr (tok_type (tokens ! pos) = EOF) else Inl IndexError)"

definition parser_advance :: "Token list \<Rightarrow> nat \<Rightarrow> error + (Token \<times> nat)" where
  "parser_advance tokens pos =
     (if pos < length tokens then
        (let token = tokens ! pos
         in case parser_at_end tokens pos of
              Inl e \<Rightarrow> Inl e
            | Inr ended \<Rightarrow> if \<not> ended then Inr (token, pos + 1) else Inr (token, pos))
      else Inl IndexError)"

text \<open>Python's \<^verbatim>\<open>list.pop()\<close>: the last element and the list without it.\<close>

definition pop :: "'a list \<Rightarrow> error + ('a \<times> 'a list)" where
  "pop xs = (if xs = [] then Inl IndexError else Inr (last xs, butlast xs))"

text \<open>Python's \<^verbatim>\<open>xs[-1]\<close>.\<close>

definition last_item :: "'a list \<Rightarrow> error + 'a" where
  "last_item xs = (if xs = [] then Inl IndexError else Inr (last xs))"

definition op_map :: "TokenType \<rightharpoonup> string" where
  "op_map = [PLUS \<mapsto> ''+'', MINUS \<mapsto> ''-'', MULT \<mapsto> ''*'', DIV \<mapsto> ''/'']"

text \<open>
  One iteration of the \<^verbatim>\<open>while\<close> loop of \<^verbatim>\<open>parse\<close>, on the loop's state (the position
  and the operand stack, whose top is the last element). The iteration continues the
  loop with a new state, leaves it (the loop condition is false, or the \<^verbatim>\<open>break\<close> on
  EOF), or raises; a raise keeps the stack as it is at that moment.
\<close>

datatype step = Continue nat "Expr list" | Leave "Expr list" | Raise error "Expr list"

definition parse_step :: "Token list \<Rightarrow> nat \<Rightarrow> Expr list \<Rightarrow> step" where
  "parse_step tokens pos stack =
     (case parser_at_end tokens pos of
        Inl e \<Rightarrow> Raise e stack
      | Inr ended \<Rightarrow>
          if ended then Leave stack
          else
            (case parser_current tokens pos of
               Inl e \<Rightarrow> Raise e stack
             | Inr token \<Rightarrow>
                 if tok_type token = NUMBER then
                   (let num_node = Number (tok_line token) (tok_column token) (tok_value token);
                        stack1 = stack @ [num_node]
                    in case parser_advance tokens pos of
                         Inl e \<Rightarrow> Raise e stack1
                       | Inr (t, pos1) \<Rightarrow> Continue pos1 stack1)
                 else if tok_type token \<in> set [PLUS, MINUS, MULT, DIV] then
                   (if length stack < 2 then
                      Raise (ParserError
                               (''Operator '' @ [CHR 0x27] @ tok_value token @ [CHR 0x27]
                                  @ '' requires two operands'') token) stack
                    else
                      (case pop stack of
                         Inl e \<Rightarrow> Raise e stack
                       | Inr (right, stack1) \<Rightarrow>
                           (case pop stack1 of
                              Inl e \<Rightarrow> Raise e stack1
                            | Inr (left, stack2) \<Rightarrow>
                                (case op_map (tok_type token) of
                                   None \<Rightarrow> Raise KeyError stack2
                                 | Some operator \<Rightarrow>
                                     (let op_node = BinaryOp (tok_line token) (tok_column token)
                                                      operator left right;
                                          stack3 = stack2 @ [op_node]
                                      in case parser_advance tokens pos of
                                           Inl e \<Rightarrow> Raise e stack3
                                         | Inr (t, pos1) \<Rightarrow> Continue pos1 stack3)))))
                 else if tok_type token = EOF then Leave stack
                 else Raise (ParserError
                               (''Unexpected token '' @ [CHR 0x27] @ tok_value token @ [CHR 0x27])
                               token) stack))"

lemma parse_step_Continue:
  assumes "parse_step tokens pos stack = Continue pos1 stack1"
  shows "pos < length tokens \<and> pos1 = Suc pos"
proof -
  from assms have inb: "pos < length tokens"
    by (auto simp: parse_step_def parser_at_end_def split: if_splits)
  with assms have ne: "tok_type (tokens ! pos) \<noteq> EOF"
    by (auto simp: parse_step_def parser_at_end_def split: if_splits)
  from inb ne have "parser_advance tokens pos = Inr (tokens ! pos, Suc pos)"
    by (simp add: parser_advance_def parser_at_end_def)
  with assms inb ne show ?thesis
    by (auto simp: parse_step_def parser_at_end_def parser_current_def Let_def
        split: if_splits sum.splits option.splits)
qed

text \<open>
  The loop: \<open>(None, stack)\<close> when it ends normally, \<open>(Some e, stack)\<close> when an
  iteration raises \<open>e\<close>.
\<close>

function parse_loop :: "Token list \<Rightarrow> nat \<Rightarrow> Expr list \<Rightarrow> error option \<times> Expr list" where
  "parse_loop tokens pos stack =
     (case parse_step tokens pos stack of
        Continue pos1 stack1 \<Rightarrow> parse_loop tokens pos1 stack1
      | Leave stack1 \<Rightarrow> (None, stack1)
      | Raise e stack1 \<Rightarrow> (Some e, stack1))"
  by pat_completeness auto
termination
proof (relation "measure (\<lambda>(tokens, pos, stack). length tokens - pos)")
  show "wf (measure (\<lambda>(tokens, pos, stack). length tokens - pos))" by simp
next
  fix tokens :: "Token list" and pos :: nat and stack pos1 stack1
  assume "parse_step tokens pos stack = Continue pos1 stack1"
  from parse_step_Continue [OF this]
  show "((tokens, pos1, stack1), (tokens, pos, stack))
          \<in> measure (\<lambda>(tokens, pos, stack). length tokens - pos)"
    by auto
qed

declare parse_loop.simps [simp del]

definition parse :: "Token list \<Rightarrow> error + Expr" where
  "parse tokens =
     (case parse_loop tokens 0 [] of
        (Some e, stack) \<Rightarrow> Inl e
      | (None, stack) \<Rightarrow>
          if length stack = 0 then
            (case last_item tokens of
               Inl e \<Rightarrow> Inl e
             | Inr eof_token \<Rightarrow> Inl (ParserError ''Empty expression'' eof_token))
          else if length stack > 1 then
            (case last_item tokens of
               Inl e \<Rightarrow> Inl e
             | Inr eof_token \<Rightarrow>
                 Inl (ParserError
                        (''Invalid RPN: '' @ str_int (int (length stack))
                           @ '' values remain on stack (missing operators?)'') eof_token))
          else Inr (stack ! 0))"


section \<open>LaTeX generator (latex\_gen.py)\<close>

definition BINARY_OPS :: "string \<rightharpoonup> string" where
  "BINARY_OPS =
     [''+'' \<mapsto> ''+'', ''-'' \<mapsto> ''-'', ''*'' \<mapsto> CHR 0x5C # ''times'', ''/'' \<mapsto> CHR 0x5C # ''div'']"

definition PRECEDENCE :: "string \<rightharpoonup> int" where
  "PRECEDENCE = [''+'' \<mapsto> 1, ''-'' \<mapsto> 1, ''*'' \<mapsto> 2, ''/'' \<mapsto> 2]"

definition needs_parens :: "Expr \<Rightarrow> int \<Rightarrow> bool \<Rightarrow> error + bool" where
  "needs_parens child parent_precedence is_right =
     (case child of
        Number l c v \<Rightarrow> Inr False
      | BinaryOp l c operator left right \<Rightarrow>
          (case PRECEDENCE operator of
             None \<Rightarrow> Inl KeyError
           | Some child_precedence \<Rightarrow>
               if child_precedence < parent_precedence then Inr True
               else Inr (child_precedence = parent_precedence \<and> is_right
                         \<and> operator \<in> set [''-'', ''/''])))"

fun visit :: "Expr \<Rightarrow> error + string" where
  "visit (Number l c v) = Inr v"
| "visit (BinaryOp l c operator left right) =
     (case BINARY_OPS operator of
        None \<Rightarrow> Inl KeyError
      | Some op_latex \<Rightarrow>
          (case PRECEDENCE operator of
             None \<Rightarrow> Inl KeyError
           | Some my_precedence \<Rightarrow>
               (case visit left of
                  Inl e \<Rightarrow> Inl e
                | Inr left0 \<Rightarrow>
                    (case needs_parens left my_precedence False of
                       Inl e \<Rightarrow> Inl e
                     | Inr lp \<Rightarrow>
                         (case visit right of
                            Inl e \<Rightarrow> Inl e
                          | Inr right0 \<Rightarrow>
                              (case needs_parens right my_precedence True of
                                 Inl e \<Rightarrow> Inl e
                               | Inr rp \<Rightarrow>
                                   Inr ((if lp then ''( '' @ left0 @ '' )'' else left0)
                                        @ '' '' @ op_latex @ '' ''
                                        @ (if rp then ''( '' @ right0 @ '' )'' else right0))))))))"

definition generate :: "Expr \<Rightarrow> error + string" where
  "generate ast =
     (case visit ast of
        Inl e \<Rightarrow> Inl e
      | Inr content \<Rightarrow> Inr (''$'' @ content @ ''$''))"


section \<open>Error formatter (errors.py)\<close>

text \<open>The formatter object: the source text and its lines.\<close>

record ErrorFormatter =
  ef_source :: string
  ef_lines :: "string list"

definition ErrorFormatter_init :: "string \<Rightarrow> ErrorFormatter" where
  "ErrorFormatter_init src = \<lparr>ef_source = src, ef_lines = splitlines src\<rparr>"

text \<open>Python's \<^verbatim>\<open>f"{s:>{w}}"\<close>: \<open>s\<close> padded with spaces on the left to width \<open>w\<close>.\<close>

definition rjust :: "string \<Rightarrow> nat \<Rightarrow> string" where
  "rjust s w = replicate (w - length s) CHR '' '' @ s"

text \<open>
  What one pass of the \<^verbatim>\<open>for idx in range(start_idx, end_idx)\<close> loop of
  \<^verbatim>\<open>_get_context\<close> appends to \<open>result_lines\<close>: the numbered line, and the caret line
  when \<open>idx\<close> is the error's index.
\<close>

definition context_rows :: "string list \<Rightarrow> int \<Rightarrow> int \<Rightarrow> nat \<Rightarrow> int \<Rightarrow> string list" where
  "context_rows lines error_idx column num_width idx =
     (let line_num = idx + 1;
          line_content = (if idx < int (length lines) then lines ! nat idx else []);
          prefix = rjust (str_int line_num) num_width @ '' | ''
      in [prefix @ line_content]
         @ (if idx = error_idx then
              (let caret_prefix = replicate num_width CHR '' '' @ '' | '';
                   caret_pos = max 0 (column - 1)
               in [caret_prefix @ replicate (nat caret_pos) CHR '' '' @ ''^''])
            else []))"

definition get_context :: "ErrorFormatter \<Rightarrow> int \<Rightarrow> int \<Rightarrow> int \<Rightarrow> string" where
  "get_context ef line column context_lines =
     (let error_idx = line - 1;
          start_idx = max 0 (error_idx - context_lines);
          end_idx = min (int (length (ef_lines ef))) (error_idx + context_lines + 1);
          max_line_num = end_idx;
          num_width = length (str_int max_line_num);
          result_lines =
            concat (map (context_rows (ef_lines ef) error_idx column num_width)
                      [start_idx..end_idx - 1])
      in join [CHR 0x0A] result_lines)"

definition format_error :: "ErrorFormatter \<Rightarrow> string \<Rightarrow> int \<Rightarrow> int \<Rightarrow> int \<Rightarrow> string" where
  "format_error ef message line column context_lines =
     (let parts = [''Error: '' @ message, [], get_context ef line column context_lines]
      in join [CHR 0x0A] parts)"



section \<open>The processing pipeline (cli.py)\<close>

text \<open>
  The core of \<^verbatim>\<open>main\<close>: tokenize, parse, generate; the first error ends the run.
  \<open>parse_text\<close> is its first two stages.
\<close>

definition parse_text :: "string \<Rightarrow> error + Expr" where
  "parse_text txt = (case tokenize txt of Inl e \<Rightarrow> Inl e | Inr tokens \<Rightarrow> parse tokens)"

definition pipeline :: "string \<Rightarrow> error + string" where
  "pipeline txt = (case parse_text txt of Inl e \<Rightarrow> Inl e | Inr ast \<Rightarrow> generate ast)"


section \<open>What the lexer's loops compute\<close>

lemma isdigit_single:
  "isdigit [c] = (c \<in> set (''0123456789'' @ [CHR 0xB2, CHR 0xB3, CHR 0xB9]))"
  by (simp add: isdigit_def)

lemma peek_not_at_end: "\<not> at_end lx \<Longrightarrow> peek lx = [lx_text lx ! lx_pos lx]"
  by (simp add: peek_def)

lemma drop_not_at_end:
  "\<not> at_end lx \<Longrightarrow>
     drop (lx_pos lx) (lx_text lx) = lx_text lx ! lx_pos lx # drop (Suc (lx_pos lx)) (lx_text lx)"
  by (simp add: at_end_def Cons_nth_drop_Suc)

lemma drop_at_end: "at_end lx \<Longrightarrow> drop (lx_pos lx) (lx_text lx) = []"
  by (simp add: at_end_def)

lemma advance_plain:
  assumes "\<not> at_end lx" and "lx_text lx ! lx_pos lx \<noteq> CHR 0x0A"
  shows "advance lx =
           Inr ([lx_text lx ! lx_pos lx],
                lx\<lparr>lx_pos := Suc (lx_pos lx), lx_column := lx_column lx + 1\<rparr>)"
  using assms by (simp add: advance_def at_end_def Let_def)

lemma digit_not_newline: "isdigit [c] \<Longrightarrow> c \<noteq> CHR 0x0A"
  by (auto simp: isdigit_def)

text \<open>
  The digit loop consumes the longest run of digits at the current position, appends it
  to the value scanned so far, and moves the position and the column past it.
\<close>

lemma scan_digits_spec:
  "scan_digits lx val =
     Inr (val @ takeWhile (\<lambda>c. isdigit [c]) (drop (lx_pos lx) (lx_text lx)),
          lx\<lparr>lx_pos := lx_pos lx
                  + length (takeWhile (\<lambda>c. isdigit [c]) (drop (lx_pos lx) (lx_text lx))),
             lx_column := lx_column lx
                  + int (length (takeWhile (\<lambda>c. isdigit [c]) (drop (lx_pos lx) (lx_text lx))))\<rparr>)"
proof (induction lx val rule: scan_digits.induct)
  case (1 lx val)
  show ?case
  proof (cases "\<not> at_end lx \<and> isdigit (peek lx)")
    case True
    then have ne: "\<not> at_end lx" and dig: "isdigit [lx_text lx ! lx_pos lx]"
      by (auto simp: peek_def)
    let ?lx1 = "lx\<lparr>lx_pos := Suc (lx_pos lx), lx_column := lx_column lx + 1\<rparr>"
    have adv: "advance lx = Inr ([lx_text lx ! lx_pos lx], ?lx1)"
      using advance_plain [OF ne digit_not_newline [OF dig]] .
    have unfold: "scan_digits lx val = scan_digits ?lx1 (val @ [lx_text lx ! lx_pos lx])"
      using True adv by (simp add: scan_digits.simps [of lx])
    have dr: "drop (lx_pos lx) (lx_text lx)
                = lx_text lx ! lx_pos lx # drop (Suc (lx_pos lx)) (lx_text lx)"
      using drop_not_at_end [OF ne] .
    show ?thesis
      unfolding unfold "1.IH" [OF True adv refl]
      by (simp add: dr dig)
  next
    case False
    have "takeWhile (\<lambda>c. isdigit [c]) (drop (lx_pos lx) (lx_text lx)) = []"
    proof (cases "at_end lx")
      case True
      then show ?thesis by (simp add: drop_at_end)
    next
      case ne: False
      with False have "\<not> isdigit [lx_text lx ! lx_pos lx]" by (simp add: peek_def)
      then show ?thesis by (simp add: drop_not_at_end [OF ne])
    qed
    moreover from False have "scan_digits lx val = Inr (val, lx)"
      by (subst scan_digits.simps) auto
    ultimately show ?thesis by simp
  qed
qed


lemma takeWhile_run:
  assumes "list_all P xs" and "ys = [] \<or> \<not> P (hd ys)"
  shows "takeWhile P (xs @ ys) = xs"
proof -
  from assms(1) have "takeWhile P (xs @ ys) = xs @ takeWhile P ys"
    by (simp add: list_all_iff takeWhile_append2)
  moreover from assms(2) have "takeWhile P ys = []" by (cases ys) auto
  ultimately show ?thesis by simp
qed

lemma drop_head:
  assumes "drop (lx_pos lx) (lx_text lx) = c # cs"
  shows "\<not> at_end lx \<and> peek lx = [c] \<and> lx_text lx ! lx_pos lx = c
         \<and> drop (Suc (lx_pos lx)) (lx_text lx) = cs"
proof -
  from assms have ne: "\<not> at_end lx" by (auto simp: at_end_def)
  from drop_not_at_end [OF ne] assms
  have "lx_text lx ! lx_pos lx = c" and "drop (Suc (lx_pos lx)) (lx_text lx) = cs" by simp_all
  with ne show ?thesis by (simp add: peek_def)
qed

lemma scan_digits_run:
  assumes "drop (lx_pos lx) (lx_text lx) = ds @ rest"
    and "list_all (\<lambda>c. isdigit [c]) ds"
    and "rest = [] \<or> \<not> isdigit [hd rest]"
  shows "scan_digits lx val =
           Inr (val @ ds,
                lx\<lparr>lx_pos := lx_pos lx + length ds, lx_column := lx_column lx + int (length ds)\<rparr>)"
  by (simp add: scan_digits_spec assms(1) takeWhile_run [OF assms(2,3)])

text \<open>
  A literal with a dot: digits, a dot, digits, and then something that is not a digit.
  The dot is consumed whether or not digits follow it.
\<close>

lemma scan_number_dot:
  assumes dr: "drop (lx_pos lx) (lx_text lx) = ds1 @ ''.'' @ ds2 @ rest"
    and d1: "list_all (\<lambda>c. isdigit [c]) ds1"
    and d2: "list_all (\<lambda>c. isdigit [c]) ds2"
    and stop: "rest = [] \<or> \<not> isdigit [hd rest]"
  shows "scan_number prefix sl sc lx =
           Inr (Token NUMBER (prefix @ ds1 @ ''.'' @ ds2) sl sc,
                lx\<lparr>lx_pos := lx_pos lx + (length ds1 + 1 + length ds2),
                   lx_column := lx_column lx + int (length ds1 + 1 + length ds2)\<rparr>)"
proof -
  let ?la = "lx\<lparr>lx_pos := lx_pos lx + length ds1,
                 lx_column := lx_column lx + int (length ds1)\<rparr>"
  let ?lb = "?la\<lparr>lx_pos := Suc (lx_pos ?la), lx_column := lx_column ?la + 1\<rparr>"
  have nodig: "\<not> isdigit ''.''" by (simp add: isdigit_def)
  have s1: "scan_digits lx prefix = Inr (prefix @ ds1, ?la)"
    by (rule scan_digits_run [where rest = "''.'' @ ds2 @ rest"]) (simp_all add: dr d1 nodig)
  have "drop (lx_pos ?la) (lx_text ?la) = drop (length ds1) (drop (lx_pos lx) (lx_text lx))"
    by (simp add: add.commute)
  then have dra: "drop (lx_pos ?la) (lx_text ?la) = CHR ''.'' # (ds2 @ rest)"
    by (simp add: dr)
  note ha = drop_head [OF dra]
  from ha have adv: "advance ?la = Inr (''.'', ?lb)"
    using advance_plain [of ?la] by simp
  from ha have drb: "drop (lx_pos ?lb) (lx_text ?lb) = ds2 @ rest" by simp
  have s2: "scan_digits ?lb ((prefix @ ds1) @ ''.'') =
              Inr (((prefix @ ds1) @ ''.'') @ ds2,
                   ?lb\<lparr>lx_pos := lx_pos ?lb + length ds2,
                        lx_column := lx_column ?lb + int (length ds2)\<rparr>)"
    by (rule scan_digits_run [OF drb d2 stop])
  from ha have cond: "\<not> at_end ?la \<and> peek ?la = ''.''" by simp
  show ?thesis
    unfolding scan_number_def s1
    using cond adv s2 by (simp add: add.assoc)
qed

text \<open>A literal without a dot: digits, and then neither a digit nor a dot.\<close>

lemma scan_number_plain:
  assumes dr: "drop (lx_pos lx) (lx_text lx) = ds1 @ rest"
    and d1: "list_all (\<lambda>c. isdigit [c]) ds1"
    and stop: "rest = [] \<or> (\<not> isdigit [hd rest] \<and> hd rest \<noteq> CHR ''.'')"
  shows "scan_number prefix sl sc lx =
           Inr (Token NUMBER (prefix @ ds1) sl sc,
                lx\<lparr>lx_pos := lx_pos lx + length ds1,
                   lx_column := lx_column lx + int (length ds1)\<rparr>)"
proof -
  let ?la = "lx\<lparr>lx_pos := lx_pos lx + length ds1,
                 lx_column := lx_column lx + int (length ds1)\<rparr>"
  from stop have stop1: "rest = [] \<or> \<not> isdigit [hd rest]" by auto
  have s1: "scan_digits lx prefix = Inr (prefix @ ds1, ?la)"
    by (rule scan_digits_run [OF dr d1 stop1])
  have "drop (lx_pos ?la) (lx_text ?la) = drop (length ds1) (drop (lx_pos lx) (lx_text lx))"
    by (simp add: add.commute)
  then have dra: "drop (lx_pos ?la) (lx_text ?la) = rest" by (simp add: dr)
  have "\<not> (\<not> at_end ?la \<and> peek ?la = ''.'')"
  proof (cases rest)
    case Nil
    with dra have "at_end ?la" by (simp add: at_end_def)
    then show ?thesis by simp
  next
    case (Cons c cs)
    with dra drop_head [of ?la c cs] stop show ?thesis by auto
  qed
  then show ?thesis
    unfolding scan_number_def s1 by auto
qed



section \<open>How a token starts\<close>

lemma scan_token_digit:
  assumes "drop (lx_pos lx) (lx_text lx) = d # cs" and "isdigit [d]"
  shows "scan_token lx = scan_number [] (lx_line lx) (lx_column lx) lx"
proof -
  from drop_head [OF assms(1)] have "peek lx = [d]" by simp
  with assms(2) show ?thesis
    by (auto simp: scan_token_def Let_def isdigit_def)
qed

lemma scan_token_minus_digit:
  assumes "drop (lx_pos lx) (lx_text lx) = CHR ''-'' # d # cs" and "isdigit [d]"
  shows "scan_token lx =
           scan_number ''-'' (lx_line lx) (lx_column lx)
             (lx\<lparr>lx_pos := Suc (lx_pos lx), lx_column := lx_column lx + 1\<rparr>)"
proof -
  let ?la = "lx\<lparr>lx_pos := Suc (lx_pos lx), lx_column := lx_column lx + 1\<rparr>"
  note h = drop_head [OF assms(1)]
  from h have adv: "advance lx = Inr (''-'', ?la)"
    using advance_plain [of lx] by simp
  from h have "drop (lx_pos ?la) (lx_text ?la) = d # cs" by simp
  from drop_head [OF this] assms(2) have "\<not> at_end ?la \<and> isdigit (peek ?la)" by simp
  with h adv show ?thesis
    by (simp add: scan_token_def Let_def)
qed

lemma scan_token_minus_op:
  assumes "drop (lx_pos lx) (lx_text lx) = CHR ''-'' # cs"
    and "cs = [] \<or> \<not> isdigit [hd cs]"
  shows "scan_token lx =
           Inr (Token MINUS ''-'' (lx_line lx) (lx_column lx),
                lx\<lparr>lx_pos := Suc (lx_pos lx), lx_column := lx_column lx + 1\<rparr>)"
proof -
  let ?la = "lx\<lparr>lx_pos := Suc (lx_pos lx), lx_column := lx_column lx + 1\<rparr>"
  note h = drop_head [OF assms(1)]
  from h have adv: "advance lx = Inr (''-'', ?la)"
    using advance_plain [of lx] by simp
  from h have dra: "drop (lx_pos ?la) (lx_text ?la) = cs" by simp
  have "\<not> (\<not> at_end ?la \<and> isdigit (peek ?la))"
  proof (cases cs)
    case Nil
    with dra have "at_end ?la" by (simp add: at_end_def)
    then show ?thesis by simp
  next
    case (Cons c cs')
    with dra drop_head [of ?la c cs'] assms(2) show ?thesis by auto
  qed
  with h adv show ?thesis
    by (auto simp: scan_token_def Let_def)
qed

lemma str_in_single: "str_in [c] t = (c \<in> set t)"
proof
  assume "str_in [c] t"
  then obtain i where "take (Suc 0) (drop i t) = [c]"
    by (auto simp: str_in_def list_ex_iff)
  then have "hd (drop i t) = c" and "drop i t \<noteq> []"
    by (cases "drop i t"; simp)+
  then show "c \<in> set t"
    by (metis hd_in_set in_set_dropD)
next
  assume "c \<in> set t"
  then obtain i where "i < length t" and "t ! i = c"
    by (auto simp: in_set_conv_nth)
  then have "take (Suc 0) (drop i t) = [c]"
    by (simp add: Cons_nth_drop_Suc [symmetric])
  with \<open>i < length t\<close> show "str_in [c] t"
    by (auto simp: str_in_def list_ex_iff intro!: bexI [of _ i])
qed

lemma skip_whitespace_none:
  assumes "drop (lx_pos lx) (lx_text lx) = c # cs"
    and "c \<notin> set [CHR '' '', CHR 0x09, CHR 0x0A, CHR 0x0D]"
  shows "skip_whitespace lx = Inr lx"
proof -
  from drop_head [OF assms(1)] have "peek lx = [c]" by simp
  with assms(2) show ?thesis
    by (subst skip_whitespace.simps) (simp add: str_in_single)
qed

lemma digit_not_space:
  "isdigit [c] \<Longrightarrow> c \<notin> set [CHR '' '', CHR 0x09, CHR 0x0A, CHR 0x0D]"
  by (auto simp: isdigit_def)

text \<open>A character that starts no token: the scan fails at that character's position.\<close>

lemma scan_token_dot:
  assumes "drop (lx_pos lx) (lx_text lx) = CHR ''.'' # cs"
  shows "scan_token lx =
           Inl (LexerError (''Unexpected character '' @ [CHR 0x27] @ ''.'' @ [CHR 0x27])
                  (lx_line lx) (lx_column lx))"
proof -
  from drop_head [OF assms] have "peek lx = ''.''" by simp
  then show ?thesis
    by (simp add: scan_token_def Let_def isdigit_def)
qed

text \<open>
  A whole literal with a dot, with or without the minus sign in front: the token and the
  state after it.
\<close>

lemma scan_token_literal_dot:
  assumes dr: "drop (lx_pos lx) (lx_text lx) = sg @ ds1 @ ''.'' @ ds2 @ rest"
    and sgc: "sg = [] \<or> sg = ''-''"
    and ne: "ds1 \<noteq> []"
    and d1: "list_all (\<lambda>c. isdigit [c]) ds1"
    and d2: "list_all (\<lambda>c. isdigit [c]) ds2"
    and stop: "rest = [] \<or> \<not> isdigit [hd rest]"
  shows "scan_token lx =
           Inr (Token NUMBER (sg @ ds1 @ ''.'' @ ds2) (lx_line lx) (lx_column lx),
                lx\<lparr>lx_pos := lx_pos lx + (length sg + length ds1 + 1 + length ds2),
                   lx_column := lx_column lx + int (length sg + length ds1 + 1 + length ds2)\<rparr>)"
proof -
  from ne obtain d ds' where ds: "ds1 = d # ds'" by (cases ds1) auto
  with d1 have dig: "isdigit [d]" by simp
  from sgc show ?thesis
  proof
    assume e: "sg = []"
    with dr ds have "drop (lx_pos lx) (lx_text lx) = d # (ds' @ ''.'' @ ds2 @ rest)" by simp
    from scan_token_digit [OF this dig]
    have "scan_token lx = scan_number [] (lx_line lx) (lx_column lx) lx" .
    moreover from dr e have "drop (lx_pos lx) (lx_text lx) = ds1 @ ''.'' @ ds2 @ rest" by simp
    note scan_number_dot [OF this d1 d2 stop, of "[]" "lx_line lx" "lx_column lx"]
    ultimately show ?thesis using e by simp
  next
    assume e: "sg = ''-''"
    let ?la = "lx\<lparr>lx_pos := Suc (lx_pos lx), lx_column := lx_column lx + 1\<rparr>"
    from dr ds e
    have dr': "drop (lx_pos lx) (lx_text lx) = CHR ''-'' # d # (ds' @ ''.'' @ ds2 @ rest)"
      by simp
    from scan_token_minus_digit [OF this dig]
    have "scan_token lx = scan_number ''-'' (lx_line lx) (lx_column lx) ?la" .
    moreover from drop_head [OF dr'] ds
    have "drop (lx_pos ?la) (lx_text ?la) = ds1 @ ''.'' @ ds2 @ rest" by simp
    note scan_number_dot [OF this d1 d2 stop, of "''-''" "lx_line lx" "lx_column lx"]
    ultimately show ?thesis using e by (simp add: add.assoc)
  qed
qed

text \<open>
  \<open>scan_number\<close> never fails: it returns a NUMBER token at the given position whose
  text is the prefix, the run of digits at the current position, and what follows it
  (nothing, or a dot and a further run of digits).
\<close>

lemma scan_number_shape:
  "\<exists>v lx1. scan_number prefix sl sc lx =
      Inr (Token NUMBER
             (prefix @ takeWhile (\<lambda>c. isdigit [c]) (drop (lx_pos lx) (lx_text lx)) @ v) sl sc,
           lx1)"
proof -
  let ?ds = "takeWhile (\<lambda>c. isdigit [c]) (drop (lx_pos lx) (lx_text lx))"
  let ?la = "lx\<lparr>lx_pos := lx_pos lx + length ?ds, lx_column := lx_column lx + int (length ?ds)\<rparr>"
  have s1: "scan_digits lx prefix = Inr (prefix @ ?ds, ?la)"
    by (rule scan_digits_spec)
  show ?thesis
  proof (cases "\<not> at_end ?la \<and> peek ?la = ''.''")
    case True
    then have ne: "\<not> at_end ?la" and ch: "lx_text ?la ! lx_pos ?la = CHR ''.''"
      by (auto simp: peek_def)
    let ?lb = "?la\<lparr>lx_pos := Suc (lx_pos ?la), lx_column := lx_column ?la + 1\<rparr>"
    have adv: "advance ?la = Inr (''.'', ?lb)"
      using advance_plain [OF ne] ch by simp
    obtain val2 lc where s2: "scan_digits ?lb ((prefix @ ?ds) @ ''.'') =
        Inr (((prefix @ ?ds) @ ''.'') @ val2, lc)"
      using scan_digits_spec [of ?lb "(prefix @ ?ds) @ ''.''"] by blast
    have "scan_number prefix sl sc lx =
            Inr (Token NUMBER (prefix @ ?ds @ (''.'' @ val2)) sl sc, lc)"
      unfolding scan_number_def s1 using True adv s2 by simp
    then show ?thesis by blast
  next
    case False
    then have "scan_number prefix sl sc lx = Inr (Token NUMBER (prefix @ ?ds @ []) sl sc, ?la)"
      unfolding scan_number_def s1 by auto
    then show ?thesis by blast
  qed
qed


section \<open>The parser's loop\<close>

text \<open>
  The states the loop of \<^verbatim>\<open>parse\<close> passes through on a token list: it starts at
  position 0 with an empty stack, and every iteration that continues leads to the next
  state.
\<close>

inductive reaches :: "Token list \<Rightarrow> nat \<Rightarrow> Expr list \<Rightarrow> bool" for tokens :: "Token list" where
  start: "reaches tokens 0 []"
| iterate: "reaches tokens pos stack \<Longrightarrow> parse_step tokens pos stack = Continue pos1 stack1
            \<Longrightarrow> reaches tokens pos1 stack1"

lemma parse_loop_Continue:
  "parse_step tokens pos stack = Continue pos1 stack1 \<Longrightarrow>
     parse_loop tokens pos stack = parse_loop tokens pos1 stack1"
  by (subst parse_loop.simps) simp

lemma parse_loop_Leave:
  "parse_step tokens pos stack = Leave stack1 \<Longrightarrow> parse_loop tokens pos stack = (None, stack1)"
  by (subst parse_loop.simps) simp

lemma parse_loop_Raise:
  "parse_step tokens pos stack = Raise e stack1 \<Longrightarrow>
     parse_loop tokens pos stack = (Some e, stack1)"
  by (subst parse_loop.simps) simp

lemma reaches_parse_loop:
  "reaches tokens pos stack \<Longrightarrow> parse_loop tokens 0 [] = parse_loop tokens pos stack"
  by (induction rule: reaches.induct) (simp_all add: parse_loop_Continue)

lemma parse_loop_raised_by_step:
  "parse_loop tokens pos stack = (Some e, st) \<Longrightarrow>
     \<exists>p s. parse_step tokens p s = Raise e st"
proof (induction tokens pos stack rule: parse_loop.induct)
  case (1 tokens pos stack)
  show ?case
  proof (cases "parse_step tokens pos stack")
    case (Continue pos1 stack1)
    with "1.prems" have "parse_loop tokens pos1 stack1 = (Some e, st)"
      by (simp add: parse_loop_Continue)
    from "1.IH" [OF Continue this] show ?thesis .
  next
    case (Leave stack1)
    with "1.prems" show ?thesis by (simp add: parse_loop_Leave)
  next
    case (Raise e1 stack1)
    with "1.prems" have "e1 = e" and "stack1 = st" by (simp_all add: parse_loop_Raise)
    with Raise show ?thesis by blast
  qed
qed

text \<open>What one iteration does on an operator token.\<close>

lemma parse_step_operator_short:
  assumes "pos < length tokens"
    and "tok_type (tokens ! pos) \<in> set [PLUS, MINUS, MULT, DIV]"
    and "length stack < 2"
  shows "parse_step tokens pos stack =
           Raise (ParserError
                    (''Operator '' @ [CHR 0x27] @ tok_value (tokens ! pos) @ [CHR 0x27]
                       @ '' requires two operands'') (tokens ! pos)) stack"
  using assms
  by (auto simp: parse_step_def parser_at_end_def parser_current_def)

lemma parse_step_operator_apply:
  assumes "pos < length tokens"
    and "tok_type (tokens ! pos) \<in> set [PLUS, MINUS, MULT, DIV]"
  shows "\<exists>operator. op_map (tok_type (tokens ! pos)) = Some operator
           \<and> parse_step tokens pos (rest @ [a, b]) =
               Continue (Suc pos)
                 (rest @ [BinaryOp (tok_line (tokens ! pos)) (tok_column (tokens ! pos))
                            operator a b])"
proof -
  from assms(2) obtain operator where om: "op_map (tok_type (tokens ! pos)) = Some operator"
    by (auto simp: op_map_def)
  from assms have ty: "tok_type (tokens ! pos) \<noteq> EOF" "tok_type (tokens ! pos) \<noteq> NUMBER"
    by auto
  have p1: "pop (rest @ [a, b]) = Inr (b, rest @ [a])"
    by (simp add: pop_def butlast_append)
  have p2: "pop (rest @ [a]) = Inr (a, rest)"
    by (simp add: pop_def)
  have "parse_step tokens pos (rest @ [a, b]) =
          Continue (Suc pos)
            (rest @ [BinaryOp (tok_line (tokens ! pos)) (tok_column (tokens ! pos)) operator a b])"
    using assms ty om p1 p2
    by (simp add: parse_step_def parser_at_end_def parser_current_def parser_advance_def
        Let_def)
  with om show ?thesis by blast
qed

lemma two_on_top:
  assumes "2 \<le> length stack"
  shows "\<exists>rest a b. stack = rest @ [a, b]"
proof -
  from assms have "stack \<noteq> []" by auto
  then have s1: "stack = butlast stack @ [last stack]" by simp
  from assms have "butlast stack \<noteq> []" by (cases stack rule: rev_cases) auto
  then have "butlast stack = butlast (butlast stack) @ [last (butlast stack)]" by simp
  with s1 have "stack = butlast (butlast stack) @ [last (butlast stack), last stack]"
    by (metis append.assoc append_Cons append_Nil)
  then show ?thesis by blast
qed

text \<open>
  On a token list that ends with an EOF token the loop never reads past the end: every
  state it reaches has its position inside the list.
\<close>

lemma parse_step_Continue_not_EOF:
  assumes "parse_step tokens pos stack = Continue pos1 stack1"
  shows "tok_type (tokens ! pos) \<noteq> EOF"
  using assms
  by (auto simp: parse_step_def parser_at_end_def split: if_splits)

lemma reaches_in_range:
  assumes "tokens \<noteq> []" and "tok_type (last tokens) = EOF"
  shows "reaches tokens pos stack \<Longrightarrow> pos < length tokens"
proof (induction rule: reaches.induct)
  case start
  from assms(1) show ?case by simp
next
  case (iterate pos stack pos1 stack1)
  from parse_step_Continue [OF iterate.hyps(2)]
  have inb: "pos < length tokens" and nxt: "pos1 = Suc pos" by simp_all
  from parse_step_Continue_not_EOF [OF iterate.hyps(2)] assms
  have "pos \<noteq> length tokens - 1" by (auto simp: last_conv_nth)
  with inb nxt show ?case by simp
qed

lemma parse_loop_raised_at_reached:
  "reaches tokens pos stack \<Longrightarrow> parse_loop tokens pos stack = (Some e, st) \<Longrightarrow>
     \<exists>p s. reaches tokens p s \<and> parse_step tokens p s = Raise e st"
proof (induction tokens pos stack rule: parse_loop.induct)
  case (1 tokens pos stack)
  show ?case
  proof (cases "parse_step tokens pos stack")
    case (Continue pos1 stack1)
    with "1.prems" have "parse_loop tokens pos1 stack1 = (Some e, st)"
      by (simp add: parse_loop_Continue)
    moreover from "1.prems"(1) Continue have "reaches tokens pos1 stack1"
      by (rule reaches.iterate)
    ultimately show ?thesis using "1.IH" [OF Continue] by blast
  next
    case (Leave stack1)
    with "1.prems" show ?thesis by (simp add: parse_loop_Leave)
  next
    case (Raise e1 stack1)
    with "1.prems" have "e1 = e" and "stack1 = st" by (simp_all add: parse_loop_Raise)
    with Raise "1.prems"(1) show ?thesis by blast
  qed
qed

text \<open>
  Inside the list, the only raise of an iteration is the operand-count error of an
  operator token: no token type reaches the final \<^verbatim>\<open>else\<close> of the loop body.
\<close>

lemma parse_step_Raise_in_range:
  assumes "pos < length tokens" and "parse_step tokens pos stack = Raise e st"
  shows "e = ParserError (''Operator '' @ [CHR 0x27] @ tok_value (tokens ! pos) @ [CHR 0x27]
                            @ '' requires two operands'') (tokens ! pos)
         \<and> tok_type (tokens ! pos) \<in> set [PLUS, MINUS, MULT, DIV]
         \<and> length stack < 2 \<and> st = stack"
proof -
  consider (num) "tok_type (tokens ! pos) = NUMBER" | (eof) "tok_type (tokens ! pos) = EOF"
    | (op) "tok_type (tokens ! pos) \<in> set [PLUS, MINUS, MULT, DIV]"
    by (cases "tok_type (tokens ! pos)") auto
  then show ?thesis
  proof cases
    case num
    with assms show ?thesis
      by (simp add: parse_step_def parser_at_end_def parser_current_def parser_advance_def
          Let_def)
  next
    case eof
    with assms show ?thesis
      by (simp add: parse_step_def parser_at_end_def)
  next
    case op
    show ?thesis
    proof (cases "length stack < 2")
      case True
      from parse_step_operator_short [OF assms(1) op True] assms(2) op True
      show ?thesis by simp
    next
      case False
      then have "2 \<le> length stack" by simp
      from two_on_top [OF this] obtain rest a b where "stack = rest @ [a, b]" by blast
      with parse_step_operator_apply [OF assms(1) op, of rest a b] assms(2)
      show ?thesis by auto
    qed
  qed
qed

lemma tokenize_ends_with_EOF:
  assumes "tokenize txt = Inr tokens"
  shows "tokens \<noteq> [] \<and> tok_type (last tokens) = EOF \<and> tok_value (last tokens) = []"
  using assms by (auto simp: tokenize_def split: sum.splits)

text \<open>
  The failures of \<open>parse\<close> on a token list that ends with EOF: the operand-count error of
  some operator token, or one of the two errors of the final validation.
\<close>

lemma parse_failures:
  assumes "tokens \<noteq> []" and "tok_type (last tokens) = EOF" and "parse tokens = Inl e"
  shows "(\<exists>t. e = ParserError (''Operator '' @ [CHR 0x27] @ tok_value t @ [CHR 0x27]
                                  @ '' requires two operands'') t)
         \<or> e = ParserError ''Empty expression'' (last tokens)
         \<or> (\<exists>n. e = ParserError (''Invalid RPN: '' @ str_int n
                                    @ '' values remain on stack (missing operators?)'')
                       (last tokens))"
proof (cases "parse_loop tokens 0 []")
  case (Pair res stack)
  show ?thesis
  proof (cases res)
    case (Some e1)
    with Pair assms(3) have "e1 = e" by (simp add: parse_def)
    with Pair Some have "parse_loop tokens 0 [] = (Some e, stack)" by simp
    from parse_loop_raised_at_reached [OF reaches.start this]
    obtain p s where r: "reaches tokens p s" and st: "parse_step tokens p s = Raise e stack"
      by blast
    from reaches_in_range [OF assms(1,2) r] have "p < length tokens" .
    from parse_step_Raise_in_range [OF this st] show ?thesis by blast
  next
    case None
    with Pair assms(1,3) show ?thesis
      by (auto simp: parse_def last_item_def split: if_splits)
  qed
qed


section \<open>The formatter's loop\<close>

lemma concat_map_singletons:
  "(\<And>x. x \<in> set xs \<Longrightarrow> g x = [f x]) \<Longrightarrow> concat (map g xs) = map f xs"
  by (induction xs) simp_all

lemma context_rows_other_line:
  assumes "idx \<noteq> error_idx" and "idx < int (length lines)"
  shows "context_rows lines error_idx column num_width idx =
           [rjust (str_int (idx + 1)) num_width @ '' | '' @ lines ! nat idx]"
  using assms by (simp add: context_rows_def Let_def)


section \<open>Claims\<close>

text \<open>
  C10. When the digits of a number are followed by a dot that no digit follows, the lexer
  still consumes the dot into the NUMBER token. Digits are the characters of which
  \<open>isdigit\<close> holds, as in the lexer. From any lexer state whose remaining text
  is an optional minus sign, a non-empty run of digits, a dot, and then the end of the
  text or a character that is not a digit, \<open>scan_token\<close> returns the NUMBER token whose
  text ends in the dot, positioned where the literal starts, and leaves the lexer just
  past the dot. In particular \<open>tokenize "5."\<close> succeeds with NUMBER "5." at (1,1) and
  EOF at (1,3).
\<close>

theorem trailing_dot_in_number:
  assumes "drop (lx_pos lx) (lx_text lx) = sg @ ds @ ''.'' @ rest"
    and "sg = [] \<or> sg = ''-''"
    and "ds \<noteq> []"
    and "list_all (\<lambda>c. isdigit [c]) ds"
    and "rest = [] \<or> \<not> isdigit [hd rest]"
  shows "scan_token lx =
           Inr (Token NUMBER (sg @ ds @ ''.'') (lx_line lx) (lx_column lx),
                lx\<lparr>lx_pos := lx_pos lx + (length sg + length ds + 1),
                   lx_column := lx_column lx + int (length sg + length ds + 1)\<rparr>)
         \<and> tokenize ''5.'' = Inr [Token NUMBER ''5.'' 1 1, Token EOF [] 1 3]"
proof
  have "drop (lx_pos lx) (lx_text lx) = sg @ ds @ ''.'' @ [] @ rest"
    using assms(1) by simp
  from scan_token_literal_dot [OF this assms(2,3,4) _ assms(5)]
  show "scan_token lx =
           Inr (Token NUMBER (sg @ ds @ ''.'') (lx_line lx) (lx_column lx),
                lx\<lparr>lx_pos := lx_pos lx + (length sg + length ds + 1),
                   lx_column := lx_column lx + int (length sg + length ds + 1)\<rparr>)"
    by simp
next
  show "tokenize ''5.'' = Inr [Token NUMBER ''5.'' 1 1, Token EOF [] 1 3]"
    by code_simp
qed

theorem trailing_dot_in_number_witness:
  "scan_token (Lexer_init ''5.'') =
     Inr (Token NUMBER ''5.'' 1 1,
          \<lparr>lx_text = ''5.'', lx_pos = 2, lx_line = 1, lx_column = 3\<rparr>)"
  using trailing_dot_in_number [of "Lexer_init ''5.''" "[]" "''5''" "[]"]
  by (simp add: Lexer_init_def isdigit_def)

text \<open>
  C8. When a number literal that already contains a dot is followed by a second dot, the
  lexer does not consume the second dot. From any lexer state whose remaining text is an
  optional minus sign, a non-empty run of digits, a dot, a (possibly empty) run of digits
  and a second dot: \<open>scan_token\<close> returns the NUMBER token that ends before the second
  dot and leaves the lexer on that dot; the next \<open>scan_token\<close> fails there with
  "Unexpected character '.'" at the dot's line and column; and so the loop of
  \<open>tokenize\<close>, started in the first state, fails with that error. On "1.2.3" the token
  "1.2" is produced and lexing fails at (1,4).
\<close>

theorem second_dot_fails_in_two_steps:
  assumes "drop (lx_pos lx) (lx_text lx) = sg @ ds1 @ ''.'' @ ds2 @ ''.'' @ rest"
    and "sg = [] \<or> sg = ''-''"
    and "ds1 \<noteq> []"
    and "list_all (\<lambda>c. isdigit [c]) ds1"
    and "list_all (\<lambda>c. isdigit [c]) ds2"
  shows "(let n = length sg + length ds1 + 1 + length ds2;
              lx1 = lx\<lparr>lx_pos := lx_pos lx + n, lx_column := lx_column lx + int n\<rparr>;
              err = LexerError (''Unexpected character '' @ [CHR 0x27] @ ''.'' @ [CHR 0x27])
                      (lx_line lx) (lx_column lx + int n)
          in scan_token lx =
               Inr (Token NUMBER (sg @ ds1 @ ''.'' @ ds2) (lx_line lx) (lx_column lx), lx1)
             \<and> peek lx1 = ''.''
             \<and> scan_token lx1 = Inl err
             \<and> tokenize_loop lx tokens = Inl err)
         \<and> scan_token (Lexer_init ''1.2.3'') =
             Inr (Token NUMBER ''1.2'' 1 1,
                  \<lparr>lx_text = ''1.2.3'', lx_pos = 3, lx_line = 1, lx_column = 4\<rparr>)
         \<and> tokenize ''1.2.3'' =
             Inl (LexerError (''Unexpected character '' @ [CHR 0x27] @ ''.'' @ [CHR 0x27]) 1 4)"
proof -
  define n where "n = length sg + length ds1 + 1 + length ds2"
  define lx1 where "lx1 = lx\<lparr>lx_pos := lx_pos lx + n, lx_column := lx_column lx + int n\<rparr>"
  define err where
    "err = LexerError (''Unexpected character '' @ [CHR 0x27] @ ''.'' @ [CHR 0x27])
             (lx_line lx) (lx_column lx + int n)"
  define tok where "tok = Token NUMBER (sg @ ds1 @ ''.'' @ ds2) (lx_line lx) (lx_column lx)"
  have stop: "''.'' @ rest = [] \<or> \<not> isdigit [hd (''.'' @ rest)]"
    by (simp add: isdigit_def)
  have dr: "drop (lx_pos lx) (lx_text lx) = sg @ ds1 @ ''.'' @ ds2 @ (''.'' @ rest)"
    using assms(1) by simp
  have first: "scan_token lx = Inr (tok, lx1)"
    unfolding tok_def lx1_def n_def
    by (rule scan_token_literal_dot [OF dr assms(2,3,4,5) stop])
  have "drop (lx_pos lx1) (lx_text lx1) = drop n (drop (lx_pos lx) (lx_text lx))"
    by (simp add: lx1_def add.commute)
  then have dr1: "drop (lx_pos lx1) (lx_text lx1) = CHR ''.'' # rest"
    by (simp add: assms(1) n_def)
  note h1 = drop_head [OF dr1]
  have second: "scan_token lx1 = Inl err"
    using scan_token_dot [OF dr1] by (simp add: err_def lx1_def)
  have skip1: "skip_whitespace lx1 = Inr lx1"
    by (rule skip_whitespace_none [OF dr1]) simp
  have loop1: "tokenize_loop lx1 (tokens @ [tok]) = Inl err"
    using h1 skip1 second by (subst tokenize_loop.simps) simp
  from assms(3) obtain d ds' where ds: "ds1 = d # ds'" by (cases ds1) auto
  with assms(4) have dig: "isdigit [d]" by simp
  obtain c cs where dr0: "drop (lx_pos lx) (lx_text lx) = c # cs"
    and cns: "c \<notin> set [CHR '' '', CHR 0x09, CHR 0x0A, CHR 0x0D]"
    using assms(1,2) ds digit_not_space [OF dig] by auto
  note h0 = drop_head [OF dr0]
  have skip0: "skip_whitespace lx = Inr lx"
    by (rule skip_whitespace_none [OF dr0 cns])
  have loop0: "tokenize_loop lx tokens = Inl err"
    using h0 skip0 first loop1 by (subst tokenize_loop.simps) simp
  have c1: "scan_token (Lexer_init ''1.2.3'') =
             Inr (Token NUMBER ''1.2'' 1 1,
                  \<lparr>lx_text = ''1.2.3'', lx_pos = 3, lx_line = 1, lx_column = 4\<rparr>)"
    by code_simp
  have c2: "tokenize ''1.2.3'' =
             Inl (LexerError (''Unexpected character '' @ [CHR 0x27] @ ''.'' @ [CHR 0x27]) 1 4)"
    by code_simp
  from first h1 second loop0 c1 c2 show ?thesis
    by (simp add: Let_def tok_def err_def lx1_def n_def)
qed

theorem second_dot_fails_in_two_steps_witness:
  "scan_token (Lexer_init ''-1..'') =
     Inr (Token NUMBER ''-1.'' 1 1,
          \<lparr>lx_text = ''-1..'', lx_pos = 3, lx_line = 1, lx_column = 4\<rparr>)
   \<and> scan_token \<lparr>lx_text = ''-1..'', lx_pos = 3, lx_line = 1, lx_column = 4\<rparr> =
       Inl (LexerError (''Unexpected character '' @ [CHR 0x27] @ ''.'' @ [CHR 0x27]) 1 4)
   \<and> tokenize_loop (Lexer_init ''-1..'') [] =
       Inl (LexerError (''Unexpected character '' @ [CHR 0x27] @ ''.'' @ [CHR 0x27]) 1 4)"
  using second_dot_fails_in_two_steps [of "Lexer_init ''-1..''" "''-''" "''1''" "[]" "[]" "[]"]
  by (simp add: Lexer_init_def isdigit_def Let_def numeral_3_eq_3)


text \<open>
  C7, as the code has it. When the lexer meets a minus sign it looks at the one character
  that follows it, and tests it with \<^verbatim>\<open>str.isdigit\<close>. From any lexer state whose
  current character is "-": if the next character exists and \<open>isdigit\<close> holds of it (a
  decimal digit 0 to 9, or one of the superscript digits U+00B2, U+00B3, U+00B9),
  \<open>scan_token\<close> returns a NUMBER token that starts at the position of the "-" and whose
  text is "-", that character, and the rest of the literal; otherwise (end of text, or
  any other character) it returns the MINUS token "-" at the position of the "-" and has
  consumed only that character.
\<close>

theorem minus_one_character_lookahead:
  assumes "drop (lx_pos lx) (lx_text lx) = CHR ''-'' # cs"
  shows "(cs \<noteq> [] \<and> isdigit [hd cs] \<longrightarrow>
            (\<exists>v lx1. scan_token lx =
               Inr (Token NUMBER (''-'' @ [hd cs] @ v) (lx_line lx) (lx_column lx), lx1)))
         \<and> (cs = [] \<or> \<not> isdigit [hd cs] \<longrightarrow>
              scan_token lx =
                Inr (Token MINUS ''-'' (lx_line lx) (lx_column lx),
                     lx\<lparr>lx_pos := Suc (lx_pos lx), lx_column := lx_column lx + 1\<rparr>))
         \<and> (\<forall>c. isdigit [c] \<longleftrightarrow>
                  c \<in> set ''0123456789'' \<or> c \<in> set [CHR 0xB2, CHR 0xB3, CHR 0xB9])"
proof (intro conjI impI allI)
  fix c
  show "isdigit [c] \<longleftrightarrow> c \<in> set ''0123456789'' \<or> c \<in> set [CHR 0xB2, CHR 0xB3, CHR 0xB9]"
    by (auto simp: isdigit_def)
next
  assume a: "cs \<noteq> [] \<and> isdigit [hd cs]"
  then obtain d cs' where cs: "cs = d # cs'" and dig: "isdigit [d]" by (cases cs) auto
  let ?la = "lx\<lparr>lx_pos := Suc (lx_pos lx), lx_column := lx_column lx + 1\<rparr>"
  from assms cs have dr: "drop (lx_pos lx) (lx_text lx) = CHR ''-'' # d # cs'" by simp
  from scan_token_minus_digit [OF dr dig]
  have st: "scan_token lx = scan_number ''-'' (lx_line lx) (lx_column lx) ?la" .
  from drop_head [OF dr] have dra: "drop (lx_pos ?la) (lx_text ?la) = d # cs'" by simp
  obtain v lx1 where "scan_number ''-'' (lx_line lx) (lx_column lx) ?la =
      Inr (Token NUMBER
             (''-'' @ takeWhile (\<lambda>c. isdigit [c]) (drop (lx_pos ?la) (lx_text ?la)) @ v)
             (lx_line lx) (lx_column lx), lx1)"
    using scan_number_shape [of "''-''" "lx_line lx" "lx_column lx" ?la] by blast
  with st dra dig cs
  have "scan_token lx =
          Inr (Token NUMBER (''-'' @ [hd cs] @ (takeWhile (\<lambda>c. isdigit [c]) cs' @ v))
                 (lx_line lx) (lx_column lx), lx1)"
    by simp
  then show "\<exists>v lx1. scan_token lx =
               Inr (Token NUMBER (''-'' @ [hd cs] @ v) (lx_line lx) (lx_column lx), lx1)"
    by blast
next
  assume "cs = [] \<or> \<not> isdigit [hd cs]"
  from scan_token_minus_op [OF assms this]
  show "scan_token lx =
          Inr (Token MINUS ''-'' (lx_line lx) (lx_column lx),
               lx\<lparr>lx_pos := Suc (lx_pos lx), lx_column := lx_column lx + 1\<rparr>)" .
qed

theorem minus_one_character_lookahead_witness:
  "(\<exists>v lx1. scan_token (Lexer_init ''-5 3'') = Inr (Token NUMBER (''-5'' @ v) 1 1, lx1))
   \<and> (\<exists>v lx1. scan_token (Lexer_init (''-'' @ [CHR 0xB3])) =
                   Inr (Token NUMBER (''-'' @ [CHR 0xB3] @ v) 1 1, lx1))
   \<and> scan_token (Lexer_init ''- 5'') =
       Inr (Token MINUS ''-'' 1 1,
            \<lparr>lx_text = ''- 5'', lx_pos = 1, lx_line = 1, lx_column = 2\<rparr>)"
  using minus_one_character_lookahead [of "Lexer_init ''-5 3''" "''5 3''"]
    minus_one_character_lookahead [of "Lexer_init (''-'' @ [CHR 0xB3])" "[CHR 0xB3]"]
    minus_one_character_lookahead [of "Lexer_init ''- 5''" "'' 5''"]
  by (simp add: Lexer_init_def isdigit_def)

text \<open>
  C7 as it was stated makes the test "is a decimal digit". The superscript two, U+00B2,
  is not a decimal digit, yet a "-" followed by it is scanned as one NUMBER token and not
  as the MINUS operator.
\<close>

theorem minus_before_superscript_counterexample:
  "CHR 0xB2 \<notin> set ''0123456789''
   \<and> scan_token (Lexer_init (''-'' @ [CHR 0xB2])) =
       Inr (Token NUMBER (''-'' @ [CHR 0xB2]) 1 1,
            \<lparr>lx_text = ''-'' @ [CHR 0xB2], lx_pos = 2, lx_line = 1, lx_column = 3\<rparr>)
   \<and> scan_token (Lexer_init (''-'' @ [CHR 0xB2])) \<noteq>
       Inr (Token MINUS ''-'' 1 1,
            \<lparr>lx_text = ''-'' @ [CHR 0xB2], lx_pos = 1, lx_line = 1, lx_column = 2\<rparr>)
   \<and> tokenize (''-'' @ [CHR 0xB2]) =
       Inr [Token NUMBER (''-'' @ [CHR 0xB2]) 1 1, Token EOF [] 1 3]"
proof (intro conjI)
  show "CHR 0xB2 \<notin> set ''0123456789''" by simp
next
  show st: "scan_token (Lexer_init (''-'' @ [CHR 0xB2])) =
       Inr (Token NUMBER (''-'' @ [CHR 0xB2]) 1 1,
            \<lparr>lx_text = ''-'' @ [CHR 0xB2], lx_pos = 2, lx_line = 1, lx_column = 3\<rparr>)"
    by code_simp
  then show "scan_token (Lexer_init (''-'' @ [CHR 0xB2])) \<noteq>
       Inr (Token MINUS ''-'' 1 1,
            \<lparr>lx_text = ''-'' @ [CHR 0xB2], lx_pos = 1, lx_line = 1, lx_column = 2\<rparr>)"
    by simp
next
  show "tokenize (''-'' @ [CHR 0xB2]) =
       Inr [Token NUMBER (''-'' @ [CHR 0xB2]) 1 1, Token EOF [] 1 3]"
    by code_simp
qed

text \<open>
  C4. When the parser handles an operator token with at least two items on the stack,
  the first value popped (the top of the stack) becomes the right operand and the second
  value popped becomes the left operand of the new BinaryOp, which is pushed in their
  place at the operator token's position, and the loop moves to the next token. In
  particular parsing "5 3 +" yields BinaryOp "+" (Number "5") (Number "3"), and the
  pipeline generates "$5 + 3$" from it.
\<close>

theorem operator_pops_right_then_left:
  assumes "pos < length tokens"
    and "tok_type (tokens ! pos) \<in> set [PLUS, MINUS, MULT, DIV]"
    and "2 \<le> length stack"
  shows "(\<exists>rest left right operator.
            stack = rest @ [left, right]
            \<and> pop stack = Inr (right, rest @ [left])
            \<and> pop (rest @ [left]) = Inr (left, rest)
            \<and> op_map (tok_type (tokens ! pos)) = Some operator
            \<and> parse_step tokens pos stack =
                Continue (Suc pos)
                  (rest @ [BinaryOp (tok_line (tokens ! pos)) (tok_column (tokens ! pos))
                             operator left right]))
         \<and> parse_text ''5 3 +'' = Inr (BinaryOp 1 5 ''+'' (Number 1 1 ''5'') (Number 1 3 ''3''))
         \<and> pipeline ''5 3 +'' = Inr ''$5 + 3$''"
proof (intro conjI)
  from two_on_top [OF assms(3)] obtain rest a b where st: "stack = rest @ [a, b]" by blast
  from parse_step_operator_apply [OF assms(1,2), of rest a b]
  obtain operator where "op_map (tok_type (tokens ! pos)) = Some operator"
    and "parse_step tokens pos (rest @ [a, b]) =
           Continue (Suc pos)
             (rest @ [BinaryOp (tok_line (tokens ! pos)) (tok_column (tokens ! pos))
                        operator a b])"
    by blast
  moreover have "pop (rest @ [a, b]) = Inr (b, rest @ [a])"
    by (simp add: pop_def butlast_append)
  moreover have "pop (rest @ [a]) = Inr (a, rest)"
    by (simp add: pop_def)
  ultimately show "\<exists>rest left right operator.
            stack = rest @ [left, right]
            \<and> pop stack = Inr (right, rest @ [left])
            \<and> pop (rest @ [left]) = Inr (left, rest)
            \<and> op_map (tok_type (tokens ! pos)) = Some operator
            \<and> parse_step tokens pos stack =
                Continue (Suc pos)
                  (rest @ [BinaryOp (tok_line (tokens ! pos)) (tok_column (tokens ! pos))
                             operator left right])"
    using st by blast
next
  show "parse_text ''5 3 +'' = Inr (BinaryOp 1 5 ''+'' (Number 1 1 ''5'') (Number 1 3 ''3''))"
    by code_simp
next
  show "pipeline ''5 3 +'' = Inr ''$5 + 3$''"
    by code_simp
qed

theorem operator_pops_right_then_left_witness:
  "parse_step [Token NUMBER ''8'' 1 1, Token NUMBER ''2'' 1 3, Token DIV ''/'' 1 5,
               Token EOF [] 1 6] 2 [Number 1 1 ''8'', Number 1 3 ''2'']
     = Continue 3 [BinaryOp 1 5 ''/'' (Number 1 1 ''8'') (Number 1 3 ''2'')]"
  using operator_pops_right_then_left
          [of 2 "[Token NUMBER ''8'' 1 1, Token NUMBER ''2'' 1 3, Token DIV ''/'' 1 5,
                  Token EOF [] 1 6]" "[Number 1 1 ''8'', Number 1 3 ''2'']"]
  by (auto simp: op_map_def pop_def numeral_3_eq_3)

text \<open>
  C5. When the parser reaches an operator token (PLUS, MINUS, MULT or DIV) with fewer
  than two items on the operand stack, the iteration raises the ParserError "Operator
  '<text of the token>' requires two operands" carrying that operator token (whose line
  and column are the error's position), and the stack is then exactly what it was before
  the iteration: nothing has been popped. The loop ends with that error, and when the
  state was reached from the start of the parse, \<open>parse\<close> fails with it. In
  particular parsing "5 +" fails with "Operator '+' requires two operands" at (1,3).
\<close>

theorem operator_needs_two_operands:
  assumes "pos < length tokens"
    and "tok_type (tokens ! pos) \<in> set [PLUS, MINUS, MULT, DIV]"
    and "length stack < 2"
  shows "(let token = tokens ! pos;
              err = ParserError (''Operator '' @ [CHR 0x27] @ tok_value token @ [CHR 0x27]
                                   @ '' requires two operands'') token
          in parse_step tokens pos stack = Raise err stack
             \<and> parse_loop tokens pos stack = (Some err, stack)
             \<and> (reaches tokens pos stack \<longrightarrow> parse tokens = Inl err))
         \<and> parse_text ''5 +'' =
             Inl (ParserError (''Operator '' @ [CHR 0x27] @ ''+'' @ [CHR 0x27]
                                 @ '' requires two operands'') (Token PLUS ''+'' 1 3))"
proof -
  define err where
    "err = ParserError (''Operator '' @ [CHR 0x27] @ tok_value (tokens ! pos) @ [CHR 0x27]
                          @ '' requires two operands'') (tokens ! pos)"
  have step: "parse_step tokens pos stack = Raise err stack"
    unfolding err_def by (rule parse_step_operator_short [OF assms])
  then have loop: "parse_loop tokens pos stack = (Some err, stack)"
    by (rule parse_loop_Raise)
  have whole: "parse tokens = Inl err" if "reaches tokens pos stack"
    using reaches_parse_loop [OF that] loop by (simp add: parse_def)
  have ex: "parse_text ''5 +'' =
             Inl (ParserError (''Operator '' @ [CHR 0x27] @ ''+'' @ [CHR 0x27]
                                 @ '' requires two operands'') (Token PLUS ''+'' 1 3))"
    by code_simp
  from step loop whole ex show ?thesis
    by (simp add: Let_def err_def)
qed

theorem operator_needs_two_operands_witness:
  "parse [Token NUMBER ''5'' 1 1, Token MINUS ''-'' 1 3, Token EOF [] 1 4] =
     Inl (ParserError (''Operator '' @ [CHR 0x27] @ ''-'' @ [CHR 0x27]
                         @ '' requires two operands'') (Token MINUS ''-'' 1 3))
   \<and> parse_step [Token NUMBER ''5'' 1 1, Token MINUS ''-'' 1 3, Token EOF [] 1 4]
        1 [Number 1 1 ''5''] =
       Raise (ParserError (''Operator '' @ [CHR 0x27] @ ''-'' @ [CHR 0x27]
                             @ '' requires two operands'') (Token MINUS ''-'' 1 3))
         [Number 1 1 ''5'']"
proof -
  let ?tokens = "[Token NUMBER ''5'' 1 1, Token MINUS ''-'' 1 3, Token EOF [] 1 4]"
  have "parse_step ?tokens 0 [] = Continue 1 [Number 1 1 ''5'']"
    by (simp add: parse_step_def parser_at_end_def parser_current_def parser_advance_def
        Let_def)
  from reaches.iterate [OF reaches.start this]
  have r: "reaches ?tokens 1 [Number 1 1 ''5'']" .
  show ?thesis
    using operator_needs_two_operands [of 1 ?tokens "[Number 1 1 ''5'']"] r
    by (simp add: Let_def)
qed


text \<open>
  C9. On every token list produced by \<open>tokenize\<close> the parser's defensive "Unexpected
  token" branch is never taken: each token has one of the kinds the loop handles
  (NUMBER, an operator, EOF), no iteration at any state raises the "Unexpected token"
  error, and \<open>parse\<close> does not fail with it. (Nor does \<open>parse\<close> fail with an
  IndexError or a KeyError there: its only failures are its three documented errors.)
\<close>

theorem unexpected_token_branch_unreachable:
  assumes "tokenize txt = Inr tokens"
  shows "(\<forall>t \<in> set tokens.
            tok_type t = NUMBER \<or> tok_type t \<in> set [PLUS, MINUS, MULT, DIV]
            \<or> tok_type t = EOF)
         \<and> (\<forall>pos stack t st.
               parse_step tokens pos stack \<noteq>
                 Raise (ParserError
                          (''Unexpected token '' @ [CHR 0x27] @ tok_value t @ [CHR 0x27]) t) st)
         \<and> (\<forall>t. parse tokens \<noteq>
                 Inl (ParserError
                        (''Unexpected token '' @ [CHR 0x27] @ tok_value t @ [CHR 0x27]) t))
         \<and> parse tokens \<noteq> Inl IndexError
         \<and> parse tokens \<noteq> Inl KeyError"
proof (intro conjI allI ballI)
  fix t :: Token
  show "tok_type t = NUMBER \<or> tok_type t \<in> set [PLUS, MINUS, MULT, DIV] \<or> tok_type t = EOF"
    by (cases "tok_type t") simp_all
next
  fix pos stack t st
  show "parse_step tokens pos stack \<noteq>
          Raise (ParserError
                   (''Unexpected token '' @ [CHR 0x27] @ tok_value t @ [CHR 0x27]) t) st"
  proof (cases "pos < length tokens")
    case True
    from parse_step_Raise_in_range [OF True] show ?thesis by fastforce
  next
    case False
    then have "parse_step tokens pos stack = Raise IndexError stack"
      by (simp add: parse_step_def parser_at_end_def)
    then show ?thesis by simp
  qed
next
  note ends = tokenize_ends_with_EOF [OF assms]
  fix t
  show "parse tokens \<noteq>
          Inl (ParserError (''Unexpected token '' @ [CHR 0x27] @ tok_value t @ [CHR 0x27]) t)"
  proof
    assume "parse tokens =
          Inl (ParserError (''Unexpected token '' @ [CHR 0x27] @ tok_value t @ [CHR 0x27]) t)"
    from parse_failures [OF _ _ this] ends show False by auto
  qed
next
  note ends = tokenize_ends_with_EOF [OF assms]
  show "parse tokens \<noteq> Inl IndexError"
  proof
    assume "parse tokens = Inl IndexError"
    from parse_failures [OF _ _ this] ends show False by auto
  qed
next
  note ends = tokenize_ends_with_EOF [OF assms]
  show "parse tokens \<noteq> Inl KeyError"
  proof
    assume "parse tokens = Inl KeyError"
    from parse_failures [OF _ _ this] ends show False by auto
  qed
qed

theorem unexpected_token_branch_unreachable_witness:
  "tokenize ''5 +'' = Inr [Token NUMBER ''5'' 1 1, Token PLUS ''+'' 1 3, Token EOF [] 1 4]
   \<and> parse [Token NUMBER ''5'' 1 1, Token PLUS ''+'' 1 3, Token EOF [] 1 4] \<noteq>
       Inl (ParserError (''Unexpected token '' @ [CHR 0x27] @ ''+'' @ [CHR 0x27])
              (Token PLUS ''+'' 1 3))
   \<and> parse [Token NUMBER ''5'' 1 1, Token PLUS ''+'' 1 3, Token EOF [] 1 4] \<noteq> Inl IndexError"
proof -
  have tk: "tokenize ''5 +'' =
              Inr [Token NUMBER ''5'' 1 1, Token PLUS ''+'' 1 3, Token EOF [] 1 4]"
    by code_simp
  from unexpected_token_branch_unreachable [OF tk]
  have "parse [Token NUMBER ''5'' 1 1, Token PLUS ''+'' 1 3, Token EOF [] 1 4] \<noteq>
          Inl (ParserError
                 (''Unexpected token '' @ [CHR 0x27] @ tok_value (Token PLUS ''+'' 1 3)
                    @ [CHR 0x27]) (Token PLUS ''+'' 1 3))"
    and "parse [Token NUMBER ''5'' 1 1, Token PLUS ''+'' 1 3, Token EOF [] 1 4] \<noteq> Inl IndexError"
    by blast+
  with tk show ?thesis by simp
qed

text \<open>
  C6, as the code has it. When the loop of \<open>parse\<close> ends normally with the operand stack
  \<open>stack\<close>: with an empty stack \<open>parse\<close> fails with "Empty expression"; with more than
  one item it fails with "Invalid RPN: n values remain on stack (missing operators?)",
  where n is the number of items on the stack; both errors carry the last token of the
  list, which is the EOF token on every token list that ends with EOF, as every list
  from \<open>tokenize\<close> does. \<open>parse\<close> returns an AST exactly when one item remains, and it is
  that item. So parsing "" fails with "Empty expression" at (1,1), and parsing "5 3 2"
  fails at the EOF token (1,6) reporting 3 remaining values.
\<close>

theorem final_stack_validation:
  assumes "parse_loop tokens 0 [] = (None, stack)"
  shows "(stack = [] \<longrightarrow> parse tokens = Inl (ParserError ''Empty expression'' (last tokens)))
         \<and> (1 < length stack \<longrightarrow>
              parse tokens =
                Inl (ParserError
                       (''Invalid RPN: '' @ str_int (int (length stack))
                          @ '' values remain on stack (missing operators?)'') (last tokens)))
         \<and> (length stack = 1 \<longrightarrow> parse tokens = Inr (hd stack))
         \<and> ((\<exists>ast. parse tokens = Inr ast) \<longleftrightarrow> length stack = 1)
         \<and> (\<forall>txt. tokenize txt = Inr tokens \<longrightarrow> tok_type (last tokens) = EOF)
         \<and> parse_text [] = Inl (ParserError ''Empty expression'' (Token EOF [] 1 1))
         \<and> parse_text ''5 3 2'' =
             Inl (ParserError ''Invalid RPN: 3 values remain on stack (missing operators?)''
                    (Token EOF [] 1 6))"
proof -
  have ne: "tokens \<noteq> []"
  proof
    assume "tokens = []"
    then have "parse_step tokens 0 [] = Raise IndexError []"
      by (simp add: parse_step_def parser_at_end_def)
    from parse_loop_Raise [OF this] assms show False by simp
  qed
  then have li: "last_item tokens = Inr (last tokens)" by (simp add: last_item_def)
  have a: "stack = [] \<longrightarrow> parse tokens = Inl (ParserError ''Empty expression'' (last tokens))"
    using assms li by (simp add: parse_def)
  have b: "1 < length stack \<longrightarrow>
              parse tokens =
                Inl (ParserError
                       (''Invalid RPN: '' @ str_int (int (length stack))
                          @ '' values remain on stack (missing operators?)'') (last tokens))"
    using assms li by (auto simp: parse_def)
  have c: "length stack = 1 \<longrightarrow> parse tokens = Inr (hd stack)"
    using assms by (cases stack) (auto simp: parse_def)
  have d: "(\<exists>ast. parse tokens = Inr ast) \<longleftrightarrow> length stack = 1"
    using assms li by (cases stack) (auto simp: parse_def split: if_splits)
  have e: "\<forall>txt. tokenize txt = Inr tokens \<longrightarrow> tok_type (last tokens) = EOF"
    using tokenize_ends_with_EOF by blast
  have f: "parse_text [] = Inl (ParserError ''Empty expression'' (Token EOF [] 1 1))"
    by code_simp
  have g: "parse_text ''5 3 2'' =
             Inl (ParserError ''Invalid RPN: 3 values remain on stack (missing operators?)''
                    (Token EOF [] 1 6))"
    by code_simp
  from a b c d e f g show ?thesis by blast
qed

theorem final_stack_validation_witness:
  "parse [Token NUMBER ''5'' 1 1, Token NUMBER ''3'' 1 3, Token EOF [] 1 4] =
     Inl (ParserError ''Invalid RPN: 2 values remain on stack (missing operators?)''
            (Token EOF [] 1 4))
   \<and> parse [Token NUMBER ''7'' 2 1, Token EOF [] 2 2] = Inr (Number 2 1 ''7'')"
proof -
  have l2: "parse_loop [Token NUMBER ''5'' 1 1, Token NUMBER ''3'' 1 3, Token EOF [] 1 4] 0 []
              = (None, [Number 1 1 ''5'', Number 1 3 ''3''])"
    by code_simp
  have l1: "parse_loop [Token NUMBER ''7'' 2 1, Token EOF [] 2 2] 0 []
              = (None, [Number 2 1 ''7''])"
    by code_simp
  have s2: "str_int 2 = ''2''" by code_simp
  from final_stack_validation [OF l2] final_stack_validation [OF l1] s2
  show ?thesis by simp
qed

text \<open>
  C6 as it was stated has "5 3 2" report 2 remaining values; the parser's error there is
  not that one.
\<close>

theorem excess_operands_count_counterexample:
  "parse_text ''5 3 2'' \<noteq>
     Inl (ParserError ''Invalid RPN: 2 values remain on stack (missing operators?)''
            (Token EOF [] 1 6))"
  by code_simp


text \<open>
  C3. The pipeline on "2 3 + 4 *" produces exactly the string "$( 2 + 3 ) ", the LaTeX
  command times (a backslash and the word), " 4$". The operator table maps "*" to the
  command times and "/" to the command div (and "+", "-" to themselves); whatever
  \<open>generate\<close> returns is the visited content between two "$"; and whatever \<open>visit\<close>
  returns for a BinaryOp is the left text, one space, the operator's symbol, one space,
  the right text, where a side that needs parentheses is written "( text )" with a space
  inside each parenthesis.
\<close>

theorem pipeline_output_format:
  "pipeline ''2 3 + 4 *'' = Inr (''$( 2 + 3 ) '' @ CHR 0x5C # ''times 4$'')
   \<and> BINARY_OPS ''*'' = Some (CHR 0x5C # ''times'')
   \<and> BINARY_OPS ''/'' = Some (CHR 0x5C # ''div'')
   \<and> BINARY_OPS ''+'' = Some ''+''
   \<and> BINARY_OPS ''-'' = Some ''-''
   \<and> (\<forall>ast out. generate ast = Inr out \<longrightarrow>
          (\<exists>content. visit ast = Inr content \<and> out = ''$'' @ content @ ''$''))
   \<and> (\<forall>l c operator left right out.
          visit (BinaryOp l c operator left right) = Inr out \<longrightarrow>
            (\<exists>sym p ls rs lp rp.
               BINARY_OPS operator = Some sym \<and> PRECEDENCE operator = Some p
               \<and> visit left = Inr ls \<and> visit right = Inr rs
               \<and> needs_parens left p False = Inr lp \<and> needs_parens right p True = Inr rp
               \<and> out = (if lp then ''( '' @ ls @ '' )'' else ls)
                        @ '' '' @ sym @ '' ''
                        @ (if rp then ''( '' @ rs @ '' )'' else rs)))"
proof (intro conjI allI impI)
  show "pipeline ''2 3 + 4 *'' = Inr (''$( 2 + 3 ) '' @ CHR 0x5C # ''times 4$'')"
    by code_simp
next
  show "BINARY_OPS ''*'' = Some (CHR 0x5C # ''times'')" by (simp add: BINARY_OPS_def)
next
  show "BINARY_OPS ''/'' = Some (CHR 0x5C # ''div'')" by (simp add: BINARY_OPS_def)
next
  show "BINARY_OPS ''+'' = Some ''+''" by (simp add: BINARY_OPS_def)
next
  show "BINARY_OPS ''-'' = Some ''-''" by (simp add: BINARY_OPS_def)
next
  fix ast out
  assume "generate ast = Inr out"
  then show "\<exists>content. visit ast = Inr content \<and> out = ''$'' @ content @ ''$''"
    by (auto simp: generate_def split: sum.splits)
next
  fix l c operator left right out
  assume v: "visit (BinaryOp l c operator left right) = Inr out"
  then obtain sym where sym: "BINARY_OPS operator = Some sym"
    by (cases "BINARY_OPS operator") simp_all
  from v sym obtain p where p: "PRECEDENCE operator = Some p"
    by (cases "PRECEDENCE operator") simp_all
  from v sym p obtain ls where ls: "visit left = Inr ls"
    by (cases "visit left") simp_all
  from v sym p ls obtain lp where lp: "needs_parens left p False = Inr lp"
    by (cases "needs_parens left p False") simp_all
  from v sym p ls lp obtain rs where rs: "visit right = Inr rs"
    by (cases "visit right") simp_all
  from v sym p ls lp rs obtain rp where rp: "needs_parens right p True = Inr rp"
    by (cases "needs_parens right p True") simp_all
  from v sym p ls lp rs rp
  have "out = (if lp then ''( '' @ ls @ '' )'' else ls) @ '' '' @ sym @ '' ''
              @ (if rp then ''( '' @ rs @ '' )'' else rs)"
    by simp
  with sym p ls lp rs rp
  show "\<exists>sym p ls rs lp rp.
          BINARY_OPS operator = Some sym \<and> PRECEDENCE operator = Some p
          \<and> visit left = Inr ls \<and> visit right = Inr rs
          \<and> needs_parens left p False = Inr lp \<and> needs_parens right p True = Inr rp
          \<and> out = (if lp then ''( '' @ ls @ '' )'' else ls)
                   @ '' '' @ sym @ '' ''
                   @ (if rp then ''( '' @ rs @ '' )'' else rs)"
    by blast
qed

theorem pipeline_output_format_witness:
  "generate (BinaryOp 1 5 ''/'' (Number 1 1 ''6'') (Number 1 3 ''2'')) =
     Inr (''$6 '' @ CHR 0x5C # ''div 2$'')
   \<and> visit (BinaryOp 1 9 ''*'' (Number 1 1 ''2'')
              (BinaryOp 1 7 ''+'' (Number 1 3 ''5'') (Number 1 5 ''3''))) =
       Inr (''2 '' @ CHR 0x5C # ''times ( 5 + 3 )'')"
  using pipeline_output_format
  by (simp add: generate_def BINARY_OPS_def PRECEDENCE_def needs_parens_def)

text \<open>
  C1, at an input where the code departs from the rule. For the right operand "3 + 2" of
  a subtraction, \<open>needs_parens\<close> answers False: it tests whether the child's operator is
  "-" or "/", not the parent's. So "5 3 2 + -", which is 5 - (3 + 2), is rendered
  "$5 - 3 + 2$", which reads as (5 - 3) + 2; and likewise "8 4 2 * /", which is
  8 / (4 * 2), is rendered without parentheses. In the other direction the right operand
  "3 - 2" of an addition is parenthesized, "$5 + ( 3 - 2 )$".
\<close>

theorem needs_parens_tests_child_operator:
  "needs_parens (BinaryOp 1 7 ''+'' (Number 1 3 ''3'') (Number 1 5 ''2'')) 1 True = Inr False
   \<and> parse_text ''5 3 2 + -'' =
       Inr (BinaryOp 1 9 ''-'' (Number 1 1 ''5'')
              (BinaryOp 1 7 ''+'' (Number 1 3 ''3'') (Number 1 5 ''2'')))
   \<and> pipeline ''5 3 2 + -'' = Inr ''$5 - 3 + 2$''
   \<and> pipeline ''8 4 2 * /'' = Inr (''$8 '' @ CHR 0x5C # ''div 4 '' @ CHR 0x5C # ''times 2$'')
   \<and> needs_parens (BinaryOp 1 7 ''-'' (Number 1 3 ''3'') (Number 1 5 ''2'')) 1 True = Inr True
   \<and> pipeline ''5 3 2 - +'' = Inr ''$5 + ( 3 - 2 )$''"
proof (intro conjI)
  show "needs_parens (BinaryOp 1 7 ''+'' (Number 1 3 ''3'') (Number 1 5 ''2'')) 1 True = Inr False"
    by (simp add: needs_parens_def PRECEDENCE_def)
next
  show "parse_text ''5 3 2 + -'' =
       Inr (BinaryOp 1 9 ''-'' (Number 1 1 ''5'')
              (BinaryOp 1 7 ''+'' (Number 1 3 ''3'') (Number 1 5 ''2'')))"
    by code_simp
next
  show "pipeline ''5 3 2 + -'' = Inr ''$5 - 3 + 2$''"
    by code_simp
next
  show "pipeline ''8 4 2 * /'' = Inr (''$8 '' @ CHR 0x5C # ''div 4 '' @ CHR 0x5C # ''times 2$'')"
    by code_simp
next
  show "needs_parens (BinaryOp 1 7 ''-'' (Number 1 3 ''3'') (Number 1 5 ''2'')) 1 True = Inr True"
    by (simp add: needs_parens_def PRECEDENCE_def)
next
  show "pipeline ''5 3 2 - +'' = Inr ''$5 + ( 3 - 2 )$''"
    by code_simp
qed


text \<open>
  C2, at the inputs where the code departs from it. When the error's line number exceeds
  the number of lines of the source, the loop of \<open>get_context\<close> stops at the last line of
  the source, so it never visits the error's index: the context is only the numbered
  source lines in range, the error line is not rendered (not even as an empty line) and
  no caret row is emitted. The pipeline produces such a position: on "5 3" followed by a
  newline the parser's error is at the EOF token (2,1), the source has one line, and the
  formatted error ends with the row "1 | 5 3". On the empty source, with the error at
  (1,1), the context is empty.
\<close>

theorem no_caret_row_past_last_line:
  assumes "int (length (ef_lines ef)) < line"
  shows "get_context ef line column context_lines =
           (let start_idx = max 0 (line - 1 - context_lines);
                end_idx = min (int (length (ef_lines ef))) (line - 1 + context_lines + 1);
                num_width = length (str_int end_idx)
            in join [CHR 0x0A]
                 (map (\<lambda>idx. rjust (str_int (idx + 1)) num_width @ '' | ''
                                @ ef_lines ef ! nat idx)
                    [start_idx..end_idx - 1]))
         \<and> pipeline (''5 3'' @ [CHR 0x0A]) =
             Inl (ParserError ''Invalid RPN: 2 values remain on stack (missing operators?)''
                    (Token EOF [] 2 1))
         \<and> format_error (ErrorFormatter_init (''5 3'' @ [CHR 0x0A]))
               ''Invalid RPN: 2 values remain on stack (missing operators?)'' 2 1 1 =
             ''Error: Invalid RPN: 2 values remain on stack (missing operators?)''
               @ [CHR 0x0A, CHR 0x0A] @ ''1 | 5 3''
         \<and> format_error (ErrorFormatter_init []) ''Empty expression'' 1 1 1 =
             ''Error: Empty expression'' @ [CHR 0x0A, CHR 0x0A]"
proof (intro conjI)
  let ?n = "int (length (ef_lines ef))"
  let ?start = "max 0 (line - 1 - context_lines)"
  let ?end = "min ?n (line - 1 + context_lines + 1)"
  let ?w = "length (str_int ?end)"
  have rows: "context_rows (ef_lines ef) (line - 1) column ?w idx =
                [rjust (str_int (idx + 1)) ?w @ '' | '' @ ef_lines ef ! nat idx]"
    if "idx \<in> set [?start..?end - 1]" for idx
  proof -
    from that have "idx < ?n" by auto
    moreover with assms have "idx \<noteq> line - 1" by simp
    ultimately show ?thesis by (rule context_rows_other_line [rotated])
  qed
  have "concat (map (context_rows (ef_lines ef) (line - 1) column ?w) [?start..?end - 1]) =
          map (\<lambda>idx. rjust (str_int (idx + 1)) ?w @ '' | '' @ ef_lines ef ! nat idx)
            [?start..?end - 1]"
    by (rule concat_map_singletons) (rule rows)
  then show "get_context ef line column context_lines =
           (let start_idx = max 0 (line - 1 - context_lines);
                end_idx = min (int (length (ef_lines ef))) (line - 1 + context_lines + 1);
                num_width = length (str_int end_idx)
            in join [CHR 0x0A]
                 (map (\<lambda>idx. rjust (str_int (idx + 1)) num_width @ '' | ''
                                @ ef_lines ef ! nat idx)
                    [start_idx..end_idx - 1]))"
    by (simp add: get_context_def Let_def)
next
  show "pipeline (''5 3'' @ [CHR 0x0A]) =
          Inl (ParserError ''Invalid RPN: 2 values remain on stack (missing operators?)''
                 (Token EOF [] 2 1))"
    by code_simp
next
  show "format_error (ErrorFormatter_init (''5 3'' @ [CHR 0x0A]))
               ''Invalid RPN: 2 values remain on stack (missing operators?)'' 2 1 1 =
             ''Error: Invalid RPN: 2 values remain on stack (missing operators?)''
               @ [CHR 0x0A, CHR 0x0A] @ ''1 | 5 3''"
    by code_simp
next
  show "format_error (ErrorFormatter_init []) ''Empty expression'' 1 1 1 =
          ''Error: Empty expression'' @ [CHR 0x0A, CHR 0x0A]"
    by code_simp
qed

theorem no_caret_row_past_last_line_witness:
  "get_context (ErrorFormatter_init (''5 3'' @ [CHR 0x0A])) 2 1 1 = ''1 | 5 3''"
proof -
  let ?ef = "ErrorFormatter_init (''5 3'' @ [CHR 0x0A])"
  have ls: "ef_lines ?ef = [''5 3'']"
    by (simp add: ErrorFormatter_init_def splitlines_def line_boundary_def)
  then have "int (length (ef_lines ?ef)) < 2" by simp
  from no_caret_row_past_last_line [OF this, of 1 1]
  have "get_context ?ef 2 1 1 =
          join [CHR 0x0A]
            (map (\<lambda>idx. rjust (str_int (idx + 1)) (length (str_int 1)) @ '' | ''
                           @ [''5 3''] ! nat idx) [0..0])"
    using ls by (simp add: Let_def)
  also have "\<dots> = ''1 | 5 3''" by code_simp
  finally show ?thesis .
qed

end
